theory Spec2Isabelle
  imports Main "HOL-Library.Word"
begin

section \<open>Machine types\<close>

text \<open>
  RFControl.cpp targets the AVR Arduino: the comment on \<open>PULSE_LENGTH_DIVIDER\<close> reads
  ``Scale down time by 4 to fit in 16 bit unsigned int''. So \<open>unsigned int\<close> is a 16-bit
  word, \<open>unsigned long\<close> a 32-bit word and \<open>byte\<close> an 8-bit word; \<open>+\<close>, \<open>-\<close> and \<open>*\<close> wrap
  around as the C operators do on unsigned operands.
\<close>

type_synonym uint = "16 word"
type_synonym ulong = "32 word"
type_synonym byte = "8 word"

section \<open>Bucket classifier\<close>

text \<open>
  The three local arrays of \<open>compressTimings\<close> and \<open>compressTimingsAndSortBuckets\<close>:
  \<open>buckets[8]\<close> (cleared on entry, so the caller's content is irrelevant), \<open>sums[8]\<close>
  and \<open>counts[8]\<close>.
\<close>

record bucket_state =
  buckets :: "uint list"
  sums :: "ulong list"
  counts :: "uint list"

definition init_buckets :: bucket_state where
  "init_buckets =
     \<lparr>buckets = [0, 0, 0, 0, 0, 0, 0, 0],
      sums = [0, 0, 0, 0, 0, 0, 0, 0],
      counts = [0, 0, 0, 0, 0, 0, 0, 0]\<rparr>"

subsection \<open>compressTimingsAndSortBuckets, lines 245-342\<close>

text \<open>
  Inner loop, lines 259-279: \<open>for(; j < 8; j++)\<close> with its two \<open>break\<close>s. The result is
  the value of \<open>j\<close> when the loop is left (8 when no bucket took the value) and the arrays.
\<close>

function csb_inner :: "uint \<Rightarrow> nat \<Rightarrow> bucket_state \<Rightarrow> nat \<times> bucket_state" where
  "csb_inner val j st =
     (if j < 8 then
        (let refVal = buckets st ! j in
         if refVal = 0 then
           (j, st\<lparr>buckets := (buckets st)[j := val],
                  sums := (sums st)[j := sums st ! j + ucast val],
                  counts := (counts st)[j := counts st ! j + 1]\<rparr>)
         else
           (let delta = refVal div 4 + refVal div 8 in
            if refVal - delta < val \<and> val < refVal + delta then
              (j, st\<lparr>sums := (sums st)[j := sums st ! j + ucast val],
                     counts := (counts st)[j := counts st ! j + 1]\<rparr>)
            else csb_inner val (j + 1) st))
      else (j, st))"
  by pat_completeness auto
termination
  by (relation "measure (\<lambda>(val, j, st). 8 - j)") auto

declare csb_inner.simps [simp del]

text \<open>
  Outer loop, lines 254-284, over \<open>i < timings_size\<close>; \<open>timings\<close> is only read here.
  \<open>False\<close> is the early \<open>return false\<close> of line 282.
\<close>

function csb_outer :: "uint list \<Rightarrow> nat \<Rightarrow> bucket_state \<Rightarrow> bool \<times> bucket_state" where
  "csb_outer timings i st =
     (if i < length timings then
        (case csb_inner (timings ! i) 0 st of
           (j, st') \<Rightarrow> if j = 8 then (False, st') else csb_outer timings (i + 1) st')
      else (True, st))"
  by pat_completeness auto
termination
  by (relation "measure (\<lambda>(timings, i, st). length timings - i)") auto

declare csb_outer.simps [simp del]

text \<open>
  Lines 286-290 (and 237-241): \<open>buckets[j] = sums[j] / counts[j]\<close> where the count is not
  zero. The division is done in \<open>unsigned long\<close> and the quotient stored in an
  \<open>unsigned int\<close>.
\<close>

definition average_step :: "nat \<Rightarrow> bucket_state \<Rightarrow> bucket_state" where
  "average_step j st =
     (if counts st ! j \<noteq> 0
      then st\<lparr>buckets := (buckets st)[j := ucast (sums st ! j div ucast (counts st ! j))]\<rparr>
      else st)"

definition average_buckets :: "bucket_state \<Rightarrow> bucket_state" where
  "average_buckets st = fold average_step [0..<8] st"

text \<open>Lines 293-301: eight passes of seven adjacent compare-and-swap steps.\<close>

definition swap_step :: "nat \<Rightarrow> uint list \<Rightarrow> uint list" where
  "swap_step j b =
     (if b ! j > b ! (j + 1) then (b[j := b ! (j + 1)])[j + 1 := b ! j] else b)"

definition bubble_pass :: "uint list \<Rightarrow> uint list" where
  "bubble_pass b = fold swap_step [0..<7] b"

definition bubble_sort :: "uint list \<Rightarrow> uint list" where
  "bubble_sort b = fold (\<lambda>i. bubble_pass) [0..<8::nat] b"

text \<open>
  Lines 305-311: the index of the first non-zero bucket; \<open>first\<close> keeps its initial
  value 0 when every bucket is zero.
\<close>

function find_first :: "nat \<Rightarrow> uint list \<Rightarrow> nat" where
  "find_first i b = (if i < 8 then (if b ! i \<noteq> 0 then i else find_first (i + 1) b) else 0)"
  by pat_completeness auto
termination
  by (relation "measure (\<lambda>(i, b). 8 - i)") auto

declare find_first.simps [simp del]

text \<open>
  Lines 313-318: \<open>buckets[i] = buckets[first]; buckets[first] = 0; first++\<close> for
  \<open>i < end\<close>, with \<open>end = 8 - first\<close>.
\<close>

function compact_loop :: "nat \<Rightarrow> nat \<Rightarrow> nat \<Rightarrow> uint list \<Rightarrow> uint list" where
  "compact_loop end i first b =
     (if i < end then compact_loop end (i + 1) (first + 1) ((b[i := b ! first])[first := 0])
      else b)"
  by pat_completeness auto
termination
  by (relation "measure (\<lambda>(end, i, first, b). end - i)") auto

declare compact_loop.simps [simp del]

text \<open>Lines 322-330: the bounds of each bucket's band, computed once.\<close>

definition ref_Val_h :: "uint list \<Rightarrow> uint list" where
  "ref_Val_h b = map (\<lambda>refVal. refVal + (refVal div 4 + refVal div 8)) b"

definition ref_Val_l :: "uint list \<Rightarrow> uint list" where
  "ref_Val_l b = map (\<lambda>refVal. refVal - (refVal div 4 + refVal div 8)) b"

text \<open>
  Lines 334-339: the relabelling scan of one position. When no band holds the value the
  loop ends without a store, and \<open>timings[i]\<close> keeps the raw duration.
\<close>

function relabel_inner :: "uint list \<Rightarrow> uint list \<Rightarrow> nat \<Rightarrow> nat \<Rightarrow> uint list \<Rightarrow> uint list" where
  "relabel_inner lo hi i j timings =
     (if j < 8 then
        (if lo ! j < timings ! i \<and> timings ! i < hi ! j then timings[i := of_nat j]
         else relabel_inner lo hi i (j + 1) timings)
      else timings)"
  by pat_completeness auto
termination
  by (relation "measure (\<lambda>(lo, hi, i, j, timings). 8 - j)") auto

declare relabel_inner.simps [simp del]

function relabel_outer :: "uint list \<Rightarrow> uint list \<Rightarrow> nat \<Rightarrow> nat \<Rightarrow> uint list \<Rightarrow> uint list" where
  "relabel_outer lo hi n i timings =
     (if i < n then relabel_outer lo hi n (i + 1) (relabel_inner lo hi i 0 timings)
      else timings)"
  by pat_completeness auto
termination
  by (relation "measure (\<lambda>(lo, hi, n, i, timings). n - i)") auto

declare relabel_outer.simps [simp del]

text \<open>
  The whole function; \<open>timings_size\<close> is the length of the list. The result is the
  returned flag, the \<open>buckets\<close> array and the \<open>timings\<close> array as the caller finds them.
\<close>

definition compressTimingsAndSortBuckets :: "uint list \<Rightarrow> bool \<times> uint list \<times> uint list" where
  "compressTimingsAndSortBuckets timings =
     (case csb_outer timings 0 init_buckets of
        (False, st) \<Rightarrow> (False, buckets st, timings)
      | (True, st) \<Rightarrow>
          (let b1 = buckets (average_buckets st);
               b2 = bubble_sort b1;
               first = find_first 0 b2;
               b3 = compact_loop (8 - first) 0 first b2
           in (True, b3,
               relabel_outer (ref_Val_l b3) (ref_Val_h b3) (length timings) 0 timings)))"


subsection \<open>compressTimings, lines 199-243\<close>

text \<open>
  Inner loop, lines 209-231. It differs from the loop of the sorting variant in the store
  \<open>timings[i] = j\<close> before each \<open>break\<close>; \<open>val\<close> is read from \<open>timings[i]\<close> in every
  round, before that store.
\<close>

function ct_inner ::
  "nat \<Rightarrow> nat \<Rightarrow> bucket_state \<Rightarrow> uint list \<Rightarrow> nat \<times> bucket_state \<times> uint list" where
  "ct_inner i j st timings =
     (if j < 8 then
        (let refVal = buckets st ! j; val = timings ! i in
         if refVal = 0 then
           (j, st\<lparr>buckets := (buckets st)[j := val],
                  sums := (sums st)[j := sums st ! j + ucast val],
                  counts := (counts st)[j := counts st ! j + 1]\<rparr>,
            timings[i := of_nat j])
         else
           (let delta = refVal div 4 + refVal div 8 in
            if refVal - delta < val \<and> val < refVal + delta then
              (j, st\<lparr>sums := (sums st)[j := sums st ! j + ucast val],
                     counts := (counts st)[j := counts st ! j + 1]\<rparr>,
               timings[i := of_nat j])
            else ct_inner i (j + 1) st timings))
      else (j, st, timings))"
  by pat_completeness auto
termination
  by (relation "measure (\<lambda>(i, j, st, timings). 8 - j)") auto

declare ct_inner.simps [simp del]

text \<open>
  Outer loop, lines 206-236, with \<open>n = timings_size\<close>. At the \<open>return false\<close> of line 234
  the positions before \<open>i\<close> are already relabelled.
\<close>

function ct_outer ::
  "nat \<Rightarrow> nat \<Rightarrow> bucket_state \<Rightarrow> uint list \<Rightarrow> bool \<times> bucket_state \<times> uint list" where
  "ct_outer n i st timings =
     (if i < n then
        (case ct_inner i 0 st timings of
           (j, st', timings') \<Rightarrow>
             if j = 8 then (False, st', timings') else ct_outer n (i + 1) st' timings')
      else (True, st, timings))"
  by pat_completeness auto
termination
  by (relation "measure (\<lambda>(n, i, st, timings). n - i)") auto

declare ct_outer.simps [simp del]

definition compressTimings :: "uint list \<Rightarrow> bool \<times> uint list \<times> uint list" where
  "compressTimings timings =
     (case ct_outer (length timings) 0 init_buckets timings of
        (False, st, timings') \<Rightarrow> (False, buckets st, timings')
      | (True, st, timings') \<Rightarrow> (True, buckets (average_buckets st), timings'))"

subsection \<open>The classifier as the specification words it\<close>

text \<open>
  Section 4.4 of the specification: ``For each duration, scan classes in index order;
  assign to the first class whose current mean is within
  [mean - (mean/4 + mean/8), mean + (mean/4 + mean/8)] of the duration, updating that
  class's running sum/count and the reported mean. If no class fits and an empty class
  slot remains, open it. If all 8 slots are occupied and none fits, fail.''
  \<open>compressTimings_spec\<close> follows these words: the band is closed, it is taken around the
  running mean, and the reported mean is renewed at every assignment.
\<close>

definition in_band :: "uint \<Rightarrow> uint \<Rightarrow> bool" where
  "in_band mean v \<longleftrightarrow>
     mean - (mean div 4 + mean div 8) \<le> v \<and> v \<le> mean + (mean div 4 + mean div 8)"

definition add_member :: "nat \<Rightarrow> uint \<Rightarrow> bucket_state \<Rightarrow> bucket_state" where
  "add_member j v st =
     (let s = sums st ! j + ucast v; c = counts st ! j + 1
      in st\<lparr>buckets := (buckets st)[j := ucast (s div ucast c)],
             sums := (sums st)[j := s],
             counts := (counts st)[j := c]\<rparr>)"

definition spec_assign :: "uint \<Rightarrow> bucket_state \<Rightarrow> (nat \<times> bucket_state) option" where
  "spec_assign v st =
     (case find (\<lambda>j. counts st ! j \<noteq> 0 \<and> in_band (buckets st ! j) v) [0..<8] of
        Some j \<Rightarrow> Some (j, add_member j v st)
      | None \<Rightarrow>
          (case find (\<lambda>j. counts st ! j = 0) [0..<8] of
             Some j \<Rightarrow> Some (j, add_member j v st)
           | None \<Rightarrow> None))"

fun spec_pass :: "uint list \<Rightarrow> bucket_state \<Rightarrow> bool \<times> bucket_state \<times> uint list" where
  "spec_pass [] st = (True, st, [])"
| "spec_pass (v # vs) st =
     (case spec_assign v st of
        None \<Rightarrow> (False, st, v # vs)
      | Some (j, st') \<Rightarrow>
          (case spec_pass vs st' of (ok, st'', labels) \<Rightarrow> (ok, st'', of_nat j # labels)))"

definition compressTimings_spec :: "uint list \<Rightarrow> bool \<times> uint list \<times> uint list" where
  "compressTimings_spec timings =
     (case spec_pass timings init_buckets of (ok, st, labels) \<Rightarrow> (ok, buckets st, labels))"

subsection \<open>The classifier as first fit against the first member\<close>

text \<open>
  The amended reading of the same sentence: a slot takes the duration when it is empty
  (its bucket value is 0) or when the duration lies strictly inside the band around the
  slot's reference value, which is the first duration put there; sums and counts grow
  with every assignment and the means are computed once, after the last duration.
\<close>

definition accepts :: "uint \<Rightarrow> uint \<Rightarrow> bool" where
  "accepts refVal v \<longleftrightarrow>
     refVal = 0 \<or>
     (refVal - (refVal div 4 + refVal div 8) < v \<and> v < refVal + (refVal div 4 + refVal div 8))"

definition first_fit :: "uint list \<Rightarrow> uint \<Rightarrow> nat option" where
  "first_fit b v = find (\<lambda>j. accepts (b ! j) v) [0..<8]"

definition put_member :: "nat \<Rightarrow> uint \<Rightarrow> bucket_state \<Rightarrow> bucket_state" where
  "put_member j v st =
     st\<lparr>buckets := (if buckets st ! j = 0 then (buckets st)[j := v] else buckets st),
        sums := (sums st)[j := sums st ! j + ucast v],
        counts := (counts st)[j := counts st ! j + 1]\<rparr>"

fun first_fit_pass :: "uint list \<Rightarrow> bucket_state \<Rightarrow> bool \<times> bucket_state \<times> uint list" where
  "first_fit_pass [] st = (True, st, [])"
| "first_fit_pass (v # vs) st =
     (case first_fit (buckets st) v of
        None \<Rightarrow> (False, st, v # vs)
      | Some j \<Rightarrow>
          (case first_fit_pass vs (put_member j v st) of
             (ok, st', labels) \<Rightarrow> (ok, st', of_nat j # labels)))"

definition compressTimings_first_fit :: "uint list \<Rightarrow> bool \<times> uint list \<times> uint list" where
  "compressTimings_first_fit timings =
     (case first_fit_pass timings init_buckets of
        (False, st, labels) \<Rightarrow> (False, buckets st, labels)
      | (True, st, labels) \<Rightarrow> (True, buckets (average_buckets st), labels))"

section \<open>Capture state\<close>

text \<open>
  The file-scope variables of RFControl.cpp (lines 21-49). \<open>msgbuf\<close> has
  \<open>MAX_RECORDINGS\<close> slots; that macro comes from RFControl.h, and the comments of lines
  36 and 83 say that the first 256 slots are the circular buffer and the rest an
  extension for the unfolded message. The handler and the foreground calls are modelled
  as atomic steps on this record. \<open>msgbuf\<close> is a list; with 256 slots or more every byte
  index lies inside it, and the statements about \<open>getRaw\<close>, whose store index
  \<open>start + size\<close> is not a byte, assume that the list has \<open>MAX_RECORDINGS\<close> entries.
\<close>

record rf_state =
  lastTime :: uint
  periodTime :: uint
  streak :: byte
  writer :: byte
  reader :: byte
  msgbuf :: "uint list"
  interruptPin :: int
  duration :: uint
  new_duration :: bool

abbreviation PULSE_LENGTH_DIVIDER :: ulong where "PULSE_LENGTH_DIVIDER \<equiv> 4"
abbreviation MIN_MSG_LEN :: byte where "MIN_MSG_LEN \<equiv> 16"
abbreviation MAX_PULSE_PERIODS :: uint where "MAX_PULSE_PERIODS \<equiv> 20"
abbreviation MIN_PERIOD_TIME :: uint where "MIN_PERIOD_TIME \<equiv> 120 div 4"

text \<open>
  A division by zero is undefined behaviour in C++; the model makes it a result of its
  own.
\<close>

datatype error = DivisionByZero

text \<open>
  \<open>startReceiving\<close>, lines 55-67; \<open>micros\<close> is the value \<open>hw_micros()\<close> returns. Attaching
  and detaching the interrupt are effects of the hardware layer.
\<close>

definition startReceiving :: "ulong \<Rightarrow> int \<Rightarrow> rf_state \<Rightarrow> rf_state" where
  "startReceiving micros pin s =
     s\<lparr>lastTime := ucast (micros div 4), periodTime := 0, writer := 0, reader := 0,
       streak := 0, interruptPin := pin\<rparr>"

definition hasData :: "rf_state \<Rightarrow> bool" where
  "hasData s = (writer s \<noteq> reader s)"

subsection \<open>The interrupt handler, lines 140-196\<close>

text \<open>
  Lines 151-165: the noise reset and the store of \<open>periods\<close> at
  \<open>(byte)(writer + streak++)\<close>.
\<close>

definition isr_receive :: "uint \<Rightarrow> rf_state \<Rightarrow> rf_state" where
  "isr_receive periods s =
     (let s1 = (if periods = 0 then s\<lparr>streak := 0\<rparr> else s) in
      if streak s1 > 0 then
        (let index = writer s1 + streak s1;
             s2 = s1\<lparr>streak := streak s1 + 1\<rparr>
         in if index = reader s2 then s2\<lparr>streak := 0\<rparr>
            else s2\<lparr>msgbuf := (msgbuf s2)[unat index := periods]\<rparr>)
      else s1)"

text \<open>
  Lines 167-195: the branch on the level read from the pin. In line 188 the operands
  are converted to \<open>unsigned int\<close>, so the product and the sum wrap at 16 bits.
\<close>

definition isr_polarity :: "bool \<Rightarrow> uint \<Rightarrow> uint \<Rightarrow> rf_state \<Rightarrow> rf_state" where
  "isr_polarity lowPulse pulseTime periods s =
     (if lowPulse then
        (if periodTime s > MIN_PERIOD_TIME \<and> periods > MAX_PULSE_PERIODS then
           (let s1 = (if streak s > MIN_MSG_LEN
                      then s\<lparr>msgbuf := (msgbuf s)[unat (writer s) := periodTime s],
                             writer := writer s + streak s\<rparr>
                      else s)
            in s1\<lparr>streak := 1\<rparr>)
         else s)
      else
        (let s1 = (if periods > MAX_PULSE_PERIODS then s\<lparr>streak := 0\<rparr> else s) in
         if streak s1 > 0 then
           (if periods = 1
            then s1\<lparr>periodTime :=
                      (periodTime s1 * ucast (streak s1) + 2 * pulseTime)
                        div (ucast (streak s1) + 2)\<rparr>
            else s1)
         else s1\<lparr>periodTime := pulseTime\<rparr>))"

text \<open>Lines 142-144: the pulse length in ticks and in periods.\<close>

abbreviation pulse_time :: "ulong \<Rightarrow> rf_state \<Rightarrow> uint" where
  "pulse_time micros s \<equiv> ucast (micros div PULSE_LENGTH_DIVIDER) - lastTime s"

abbreviation pulse_periods :: "ulong \<Rightarrow> rf_state \<Rightarrow> uint" where
  "pulse_periods micros s \<equiv> (pulse_time micros s + periodTime s div 2) div periodTime s"

text \<open>
  The handler. \<open>micros\<close> is the clock value of line 142 and \<open>lowPulse\<close> the level that
  \<open>digitalRead\<close> returns in line 145. Line 144 divides by \<open>periodTime\<close> before anything
  else is looked at.
\<close>

definition isr :: "ulong \<Rightarrow> bool \<Rightarrow> rf_state \<Rightarrow> error + rf_state" where
  "isr micros lowPulse s =
     (let now = ucast (micros div PULSE_LENGTH_DIVIDER) :: uint;
          pulseTime = now - lastTime s
      in if periodTime s = 0 then Inl DivisionByZero
         else
           (let periods = (pulseTime + periodTime s div 2) div periodTime s;
                s1 = s\<lparr>lastTime := now, duration := pulseTime, new_duration := True\<rparr>
            in Inr (isr_polarity lowPulse pulseTime periods (isr_receive periods s1))))"

text \<open>A sequence of edges, each with its clock value and level, handled one after another.\<close>

fun isr_run :: "(ulong \<times> bool) list \<Rightarrow> rf_state \<Rightarrow> error + rf_state" where
  "isr_run [] s = Inr s"
| "isr_run ((micros, lowPulse) # es) s =
     (case isr micros lowPulse s of Inl e \<Rightarrow> Inl e | Inr s' \<Rightarrow> isr_run es s')"

subsection \<open>getRaw and continueReceiving, lines 93-129\<close>

text \<open>
  The loop of lines 101-103. It reads the ring at \<open>(byte)(reader + pos)\<close> and stores at
  \<open>start + size\<close>, an \<open>unsigned int\<close> index that is not reduced to a byte. The
  variable \<open>size\<close> of the source is \<open>sz\<close> here.
\<close>

function getRaw_loop ::
  "byte \<Rightarrow> byte \<Rightarrow> uint \<Rightarrow> uint \<Rightarrow> uint \<Rightarrow> byte \<Rightarrow> uint \<Rightarrow> uint list \<Rightarrow> byte \<times> uint \<times> uint list"
where
  "getRaw_loop rd wr pt start max_size pos sz buf =
     (if rd + pos \<noteq> wr \<and> buf ! unat (rd + pos) \<le> MAX_PULSE_PERIODS \<and> sz < max_size
      then getRaw_loop rd wr pt start max_size (pos + 1) (sz + 1)
             (buf[unat (start + sz) := pt * buf ! unat (rd + pos)])
      else (pos, sz, buf))"
  by pat_completeness auto
termination
proof (relation "measure (\<lambda>(rd, wr, pt, start, max_size, pos, sz, buf). unat (wr - (rd + pos)))")
  show "wf (measure (\<lambda>(rd, wr, pt, start, max_size, pos, sz, buf). unat (wr - (rd + pos))))"
    by simp
next
  fix rd wr :: byte and pt start max_size :: uint and pos :: byte and sz :: uint
    and buf :: "uint list"
  assume "rd + pos \<noteq> wr \<and> buf ! unat (rd + pos) \<le> MAX_PULSE_PERIODS \<and> sz < max_size"
  then have ne: "wr - (rd + pos) \<noteq> 0" by auto
  have eq: "wr - (rd + (pos + 1)) = wr - (rd + pos) - 1" by simp
  have "unat (wr - (rd + (pos + 1))) < unat (wr - (rd + pos))"
    unfolding eq using ne by (rule measure_unat)
  then show
    "((rd, wr, pt, start, max_size, pos + 1, sz + 1,
       buf[unat (start + sz) := pt * buf ! unat (rd + pos)]),
      (rd, wr, pt, start, max_size, pos, sz, buf))
     \<in> measure (\<lambda>(rd, wr, pt, start, max_size, pos, sz, buf). unat (wr - (rd + pos)))"
    by simp
qed

declare getRaw_loop.simps [simp del]

text \<open>
  \<open>getRaw\<close>. The result is the index of \<open>msgbuf\<close> that \<open>*buffer\<close> points to, the value
  stored in \<open>*timings_size\<close>, and the state. \<open>MAX_RECORDINGS\<close> is a parameter. The test
  of line 108 compares \<open>reader + pos\<close> with \<open>writer\<close> after the integer promotions, with
  no cast back to a byte.
\<close>

definition getRaw :: "uint \<Rightarrow> rf_state \<Rightarrow> (nat \<times> uint) \<times> rf_state" where
  "getRaw MAX_RECORDINGS s =
     (let start = ucast (reader s) :: uint;
          max_size = MAX_RECORDINGS - ucast (reader s)
      in if reader s \<noteq> writer s then
           (let pt = msgbuf s ! unat (reader s) in
            case getRaw_loop (reader s) (writer s) pt start max_size 1 0 (msgbuf s) of
              (pos, sz, buf) \<Rightarrow>
                if sz \<ge> max_size then ((unat start, 0), s\<lparr>msgbuf := buf\<rparr>)
                else if unat (reader s) + unat pos \<noteq> unat (writer s) then
                  ((unat start, sz + 1),
                   s\<lparr>msgbuf := buf[unat (start + sz) := pt * buf ! unat (reader s + pos)]\<rparr>)
                else ((unat start, sz), s\<lparr>msgbuf := buf\<rparr>))
         else ((unat start, 0), s))"

text \<open>The durations the caller reads through the returned pointer and count.\<close>

definition exposed :: "(nat \<times> uint) \<times> rf_state \<Rightarrow> uint list" where
  "exposed r = (case r of ((start, sz), s) \<Rightarrow> take (unat sz) (drop start (msgbuf s)))"

text \<open>The loop of lines 121-123.\<close>

function continue_loop :: "byte \<Rightarrow> uint list \<Rightarrow> byte \<Rightarrow> byte" where
  "continue_loop wr buf rd =
     (if rd \<noteq> wr \<and> buf ! unat rd \<le> MAX_PULSE_PERIODS then continue_loop wr buf (rd + 1)
      else rd)"
  by pat_completeness auto
termination
proof (relation "measure (\<lambda>(wr, buf, rd). unat (wr - rd))")
  show "wf (measure (\<lambda>(wr, buf, rd). unat (wr - rd)))"
    by simp
next
  fix wr rd :: byte and buf :: "uint list"
  assume "rd \<noteq> wr \<and> buf ! unat rd \<le> MAX_PULSE_PERIODS"
  then have ne: "wr - rd \<noteq> 0" by auto
  have eq: "wr - (rd + 1) = wr - rd - 1" by simp
  have "unat (wr - (rd + 1)) < unat (wr - rd)"
    unfolding eq using ne by (rule measure_unat)
  then show "((wr, buf, rd + 1), (wr, buf, rd)) \<in> measure (\<lambda>(wr, buf, rd). unat (wr - rd))"
    by simp
qed

declare continue_loop.simps [simp del]

definition continueReceiving :: "rf_state \<Rightarrow> rf_state" where
  "continueReceiving s =
     (if reader s \<noteq> writer s then
        (let r = continue_loop (writer s) (msgbuf s) (reader s + 1) in
         if r \<noteq> writer s then s\<lparr>reader := r + 1\<rparr> else s\<lparr>reader := r\<rparr>)
      else s)"

section \<open>The committed region\<close>

text \<open>
  The slots from \<open>reader\<close> up to, not including, \<open>writer\<close>, going round the ring of 256:
  the finalized messages not yet consumed. \<open>streak_fits\<close> says that the capture in
  progress has not run past the free part of the ring; \<open>startReceiving\<close> establishes it
  and the handler keeps it.
\<close>

definition committed :: "rf_state \<Rightarrow> byte \<Rightarrow> bool" where
  "committed s i \<longleftrightarrow> i - reader s < writer s - reader s"

definition streak_fits :: "rf_state \<Rightarrow> bool" where
  "streak_fits s \<longleftrightarrow> unat (writer s - reader s) + unat (streak s) \<le> 256"

section \<open>The pending message, as the specification describes it\<close>

text \<open>
  Section 4.3 of the specification: the message at \<open>reader\<close> is its header, then the slots
  up to \<open>writer\<close> as long as their value is at most \<open>MAX_PULSE_PERIODS\<close>, then the
  trailing sync when one is present. \<open>pending_slots\<close> are the ring positions after the
  header and before \<open>writer\<close>, \<open>data_run\<close> the leading ones that hold data pulses, and
  \<open>unwound\<close> the durations the caller is to see: the header times each data count, and
  times the slot after the run when there is one.
\<close>

definition pending_slots :: "rf_state \<Rightarrow> byte list" where
  "pending_slots s = map (\<lambda>k. reader s + of_nat k) [1..<unat (writer s - reader s)]"

definition data_run :: "rf_state \<Rightarrow> byte list" where
  "data_run s = takeWhile (\<lambda>p. msgbuf s ! unat p \<le> MAX_PULSE_PERIODS) (pending_slots s)"

definition unwound :: "rf_state \<Rightarrow> uint list" where
  "unwound s =
     map (\<lambda>p. msgbuf s ! unat (reader s) * msgbuf s ! unat p)
       (take (length (data_run s) + 1) (pending_slots s))"

text \<open>The unwound message fits the flat space between \<open>reader\<close> and the end of \<open>msgbuf\<close>.\<close>

definition fits_flat :: "uint \<Rightarrow> rf_state \<Rightarrow> bool" where
  "fits_flat MAX_RECORDINGS s \<longleftrightarrow> unat (reader s) + length (unwound s) \<le> unat MAX_RECORDINGS"

text \<open>
  The buffer after \<open>k\<close> rounds of the loop of \<open>getRaw\<close>: the slots \<open>reader\<close> to
  \<open>reader + k - 1\<close> hold durations. Used in the proofs.
\<close>

primrec filled :: "byte \<Rightarrow> uint \<Rightarrow> uint list \<Rightarrow> nat \<Rightarrow> uint list" where
  "filled rd pt buf 0 = buf"
| "filled rd pt buf (Suc k) =
     (filled rd pt buf k)[unat rd + k := pt * buf ! unat (rd + of_nat (Suc k))]"

section \<open>Auxiliary notions for the proofs\<close>

text \<open>
  One pass of adjacent compare-and-swap steps as a recursion on the list; it is shown
  below to be what \<open>bubble_pass\<close> computes on an array of eight.
\<close>

fun bubble :: "uint list \<Rightarrow> uint list" where
  "bubble (x # y # xs) = (if y < x then y # bubble (x # xs) else x # bubble (y # xs))"
| "bubble [x] = [x]"
| "bubble [] = []"

text \<open>The last \<open>k\<close> entries are in order and no earlier entry exceeds any of them.\<close>

definition settled :: "nat \<Rightarrow> uint list \<Rightarrow> bool" where
  "settled k xs \<longleftrightarrow>
     (\<exists>us vs. xs = us @ vs \<and> length vs = k \<and> sorted vs \<and> (\<forall>u\<in>set us. \<forall>v\<in>set vs. u \<le> v))"

text \<open>Non-zero entries in non-decreasing order first, zeros after them, eight in all.\<close>

definition canonical :: "uint list \<Rightarrow> bool" where
  "canonical b \<longleftrightarrow>
     (\<exists>nz. b = nz @ replicate (8 - length nz) 0 \<and> length nz \<le> 8 \<and> 0 \<notin> set nz \<and> sorted nz)"

section \<open>States used for evaluation\<close>

text \<open>A capture in progress: one pulse recorded, the period estimate at 100 ticks.\<close>

definition capture_state :: rf_state where
  "capture_state =
     \<lparr>lastTime = 0, periodTime = 100, streak = 1, writer = 0, reader = 0,
      msgbuf = replicate 256 0, interruptPin = 2, duration = 0, new_duration = False\<rparr>"

text \<open>
  The ring nearly full: 236 committed slots from \<open>reader = 20\<close> round to \<open>writer = 0\<close>,
  and a capture in progress that has filled the slots 1 to 18.
\<close>

definition full_ring_state :: rf_state where
  "full_ring_state =
     \<lparr>lastTime = 0, periodTime = 100, streak = 19, writer = 0, reader = 20,
      msgbuf = replicate 256 2, interruptPin = 2, duration = 0, new_duration = False\<rparr>"

text \<open>
  One finalized message of 17 slots, as the handler lays it out: the header 100, fifteen
  data pulses and the sync of 30 periods. \<open>MAX_RECORDINGS\<close> is 512 here.
\<close>

definition ring_state :: rf_state where
  "ring_state =
     \<lparr>lastTime = 0, periodTime = 100, streak = 0, writer = 17, reader = 0,
      msgbuf = [100, 1, 1, 2, 1, 1, 2, 1, 1, 2, 1, 1, 2, 1, 1, 2, 30] @ replicate 495 0,
      interruptPin = 2, duration = 0, new_duration = False\<rparr>"

text \<open>
  A pending region that ends at slot 255: the header at slot 250, five data pulses, no
  trailing sync, and \<open>writer = 0\<close>. \<open>MAX_RECORDINGS\<close> is 512.
\<close>

definition wrapped_state :: rf_state where
  "wrapped_state =
     \<lparr>lastTime = 0, periodTime = 100, streak = 0, writer = 0, reader = 250,
      msgbuf = [7] @ replicate 249 0 @ [100, 1, 2, 1, 2, 1] @ replicate 256 0,
      interruptPin = 2, duration = 0, new_duration = False\<rparr>"

section \<open>Evaluation helpers\<close>

lemma upt_0_8: "[0..<8] = [0, 1, 2, 3, 4, 5, 6, 7::nat]"
  by code_simp

lemma upt_0_7: "[0..<7] = [0, 1, 2, 3, 4, 5, 6::nat]"
  by code_simp

section \<open>Classification that fails leaves the durations alone\<close>

lemma nine_classes_pass1:
  "csb_outer [1, 2, 4, 8, 16, 32, 64, 128, 256] 0 init_buckets =
     (False, \<lparr>buckets = [1, 2, 4, 8, 16, 32, 64, 128],
              sums = [1, 2, 4, 8, 16, 32, 64, 128],
              counts = [1, 1, 1, 1, 1, 1, 1, 1]\<rparr>)"
  by (simp add: init_buckets_def csb_outer.simps csb_inner.simps)

text \<open>
  C10. Whenever \<open>compressTimingsAndSortBuckets\<close> returns false, the \<open>timings\<close> array the
  caller gets back is the one passed in: the only stores to \<open>timings\<close> are in the second
  pass (line 336), which is reached only after the bucketing pass has gone through.
\<close>

theorem csb_false_keeps_timings:
  "fst (compressTimingsAndSortBuckets timings) = False \<Longrightarrow>
   snd (snd (compressTimingsAndSortBuckets timings)) = timings"
proof -
  assume failed: "fst (compressTimingsAndSortBuckets timings) = False"
  obtain ok st where pass1: "csb_outer timings 0 init_buckets = (ok, st)"
    by (cases "csb_outer timings 0 init_buckets")
  show ?thesis
  proof (cases ok)
    case True
    with failed pass1 show ?thesis
      unfolding compressTimingsAndSortBuckets_def by (simp add: Let_def)
  next
    case False
    with pass1 show ?thesis
      unfolding compressTimingsAndSortBuckets_def by simp
  qed
qed

theorem csb_false_keeps_timings_witness:
  "fst (compressTimingsAndSortBuckets [1, 2, 4, 8, 16, 32, 64, 128, 256]) = False \<and>
   snd (snd (compressTimingsAndSortBuckets [1, 2, 4, 8, 16, 32, 64, 128, 256])) =
     [1, 2, 4, 8, 16, 32, 64, 128, 256]"
proof -
  have f: "fst (compressTimingsAndSortBuckets [1, 2, 4, 8, 16, 32, 64, 128, 256]) = False"
    unfolding compressTimingsAndSortBuckets_def nine_classes_pass1 by simp
  from f csb_false_keeps_timings [OF f] show ?thesis by simp
qed

section \<open>Relabelling against the final means\<close>

lemma drift_pass1:
  "csb_outer [100, 64, 64, 64] 0 init_buckets =
     (True, \<lparr>buckets = [100, 0, 0, 0, 0, 0, 0, 0],
             sums = [292, 0, 0, 0, 0, 0, 0, 0],
             counts = [4, 0, 0, 0, 0, 0, 0, 0]\<rparr>)"
  by (simp add: init_buckets_def csb_outer.simps csb_inner.simps)

lemma drift_average:
  "buckets (average_buckets \<lparr>buckets = [100, 0, 0, 0, 0, 0, 0, 0],
                             sums = [292, 0, 0, 0, 0, 0, 0, 0],
                             counts = [4, 0, 0, 0, 0, 0, 0, 0]\<rparr>) =
     [73, 0, 0, 0, 0, 0, 0, 0]"
  by (simp add: average_buckets_def average_step_def upt_0_8)

lemma drift_pass_a: "bubble_pass [73, 0, 0, 0, 0, 0, 0, 0] = [0, 0, 0, 0, 0, 0, 0, 73]"
  by (simp add: bubble_pass_def swap_step_def upt_0_7)

lemma drift_pass_b: "bubble_pass [0, 0, 0, 0, 0, 0, 0, 73] = [0, 0, 0, 0, 0, 0, 0, 73]"
  by (simp add: bubble_pass_def swap_step_def upt_0_7)

lemma drift_sort: "bubble_sort [73, 0, 0, 0, 0, 0, 0, 0] = [0, 0, 0, 0, 0, 0, 0, 73]"
  by (simp add: bubble_sort_def drift_pass_a drift_pass_b upt_0_8)

lemma drift_first: "find_first 0 [0, 0, 0, 0, 0, 0, 0, 73] = 7"
  by (simp add: find_first.simps)

lemma drift_compact:
  "compact_loop (8 - 7) 0 7 [0, 0, 0, 0, 0, 0, 0, 73] = [73, 0, 0, 0, 0, 0, 0, 0]"
  by (simp add: compact_loop.simps)

lemma drift_bands:
  "ref_Val_l [73, 0, 0, 0, 0, 0, 0, 0] = [46, 0, 0, 0, 0, 0, 0, 0]"
  "ref_Val_h [73, 0, 0, 0, 0, 0, 0, 0] = [100, 0, 0, 0, 0, 0, 0, 0]"
  by (simp_all add: ref_Val_l_def ref_Val_h_def)

lemma drift_relabel:
  "relabel_outer [46, 0, 0, 0, 0, 0, 0, 0] [100, 0, 0, 0, 0, 0, 0, 0]
     (length [100, 64, 64, 64 :: uint]) 0 [100, 64, 64, 64] = [100, 0, 0, 0]"
  by (simp add: relabel_outer.simps relabel_inner.simps)

text \<open>
  C3. The claim: when \<open>compressTimingsAndSortBuckets\<close> returns true, every
  \<open>timings_out[i]\<close> is a class index whose bucket value has the raw duration
  \<open>timings_in[i]\<close> inside its band. The code at the durations 100, 64, 64, 64: the first
  pass puts all four into class 0 (64 lies inside the band of the first value 100), the
  mean becomes 73 with the band 46 < v < 100, and the second pass finds no band for the
  duration 100. The function returns true, and position 0 of \<open>timings\<close> still holds the raw
  duration 100, which is no class index.
\<close>

theorem csb_relabel_leaves_raw_duration:
  "compressTimingsAndSortBuckets [100, 64, 64, 64] =
     (True, [73, 0, 0, 0, 0, 0, 0, 0], [100, 0, 0, 0])"
  unfolding compressTimingsAndSortBuckets_def drift_pass1
  by (simp only: prod.case bool.case Let_def drift_average drift_sort drift_first
        drift_compact drift_bands drift_relabel)


section \<open>The interrupt handler\<close>

lemma byte_255: "(- 1 :: byte) = 255"
  by simp

lemma byte_succ_zero: "(x :: byte) + 1 = 0 \<longleftrightarrow> x = 255"
  unfolding byte_255 [symmetric] by (simp add: eq_neg_iff_add_eq_0)

lemma byte_lt_16_succ: "(x :: byte) < 16 \<Longrightarrow> \<not> 16 < x + 1"
  by (simp add: word_less_nat_alt unat_word_ariths)

text \<open>
  C1. The claim: the handler guards the division of line 144 against a zero
  \<open>periodTime\<close>. \<open>startReceiving\<close> sets \<open>periodTime\<close> to 0, and the handler divides by it
  in its third statement, whatever the clock and the pin read: the first edge after
  \<open>startReceiving\<close> is a division by zero.
\<close>

theorem isr_after_start_divides_by_zero:
  "isr micros lowPulse (startReceiving micros0 pin s) = Inl DivisionByZero"
  by (simp add: isr_def startReceiving_def)

text \<open>
  C4, as amended. On a high pulse of exactly one period with a message in progress, the
  handler has already appended the pulse and incremented \<open>streak\<close> (line 157) when it
  refines the estimate in line 188: the new estimate is
  \<open>(periodTime * (streak + 1) + 2 * pulseTime) / (streak + 1 + 2)\<close> in 16-bit unsigned
  arithmetic, \<open>streak\<close> being the count before the interrupt. When the pulse could not be
  appended (the slot is \<open>reader\<close>, or the byte counter wraps from 255 to 0) the streak is 0
  at line 185 and the estimate is reseeded with \<open>pulseTime\<close>.
\<close>

theorem period_refined_with_incremented_streak:
  assumes "periodTime s \<noteq> 0" and "0 < streak s" and "pulse_periods micros s = 1"
  shows "\<exists>s'. isr micros False s = Inr s' \<and>
     periodTime s' =
       (if writer s + streak s = reader s \<or> streak s = 255 then pulse_time micros s
        else (periodTime s * ucast (streak s + 1) + 2 * pulse_time micros s)
               div (ucast (streak s + 1) + 2))"
  using assms
  by (auto simp: isr_def isr_receive_def isr_polarity_def Let_def byte_succ_zero word_gt_0)

theorem period_refined_with_incremented_streak_witness:
  "periodTime capture_state \<noteq> 0 \<and> 0 < streak capture_state \<and>
   pulse_periods 440 capture_state = 1 \<and>
   (\<exists>s'. isr 440 False capture_state = Inr s' \<and> periodTime s' = 105)"
proof -
  have h1: "periodTime capture_state \<noteq> 0" by (simp add: capture_state_def)
  have h2: "0 < streak capture_state" by (simp add: capture_state_def)
  have h3: "pulse_periods 440 capture_state = 1" by (simp add: capture_state_def)
  from period_refined_with_incremented_streak [OF h1 h2 h3] h1 h2 h3
  show ?thesis by (simp add: capture_state_def)
qed

text \<open>
  C4 as stated, with \<open>streak\<close> the count before the pulse is appended, fails: with
  \<open>periodTime = 100\<close>, \<open>streak = 1\<close> and a high pulse of 110 ticks the handler stores
  \<open>(100 * 2 + 220) / 4 = 105\<close>, and the stated formula gives \<open>(100 * 1 + 220) / 3 = 106\<close>.
\<close>

theorem period_estimate_counterexample:
  "isr 440 False capture_state =
     Inr (capture_state\<lparr>lastTime := 110, duration := 110, new_duration := True, streak := 2,
            msgbuf := (msgbuf capture_state)[1 := 1], periodTime := 105\<rparr>) \<and>
   (periodTime capture_state * ucast (streak capture_state) + 2 * pulse_time 440 capture_state)
      div (ucast (streak capture_state) + 2) = 106"
  by (simp add: capture_state_def isr_def isr_receive_def isr_polarity_def)

text \<open>
  C5. A sync gap (a low pulse of more than \<open>MAX_PULSE_PERIODS\<close> periods while
  \<open>periodTime\<close> is above \<open>MIN_PERIOD_TIME\<close>) that arrives when fewer than
  \<open>MIN_MSG_LEN = 16\<close> pulses have been captured finalizes nothing: the handler returns,
  \<open>writer\<close> and \<open>reader\<close> are as before, the slot at \<open>writer\<close> (where a header would go) is
  untouched, \<open>hasData\<close> answers as before, and the new streak is 1.
\<close>

theorem short_streak_not_finalized:
  assumes "MIN_PERIOD_TIME < periodTime s" and "MAX_PULSE_PERIODS < pulse_periods micros s"
    and "streak s < MIN_MSG_LEN"
  shows "\<exists>s'. isr micros True s = Inr s' \<and> writer s' = writer s \<and> reader s' = reader s \<and>
           msgbuf s' ! unat (writer s) = msgbuf s ! unat (writer s) \<and>
           hasData s' = hasData s \<and> streak s' = 1"
proof -
  from assms(1) have nz: "periodTime s \<noteq> 0" by auto
  from assms(2) have pnz: "pulse_periods micros s \<noteq> 0" by auto
  have small: "\<not> 16 < streak s + 1" using assms(3) by (rule byte_lt_16_succ)
  show ?thesis
  proof (cases "0 < streak s")
    case True
    then have "writer s + streak s \<noteq> writer s" by simp
    then have "unat (writer s + streak s) \<noteq> unat (writer s)" by (simp add: word_unat_eq_iff)
    with True nz pnz small assms show ?thesis
      by (simp add: isr_def isr_receive_def isr_polarity_def Let_def hasData_def)
  next
    case False
    then have z: "streak s = 0" by (simp add: word_gt_0)
    from assms(3) have "\<not> 16 < streak s" by simp
    with z nz pnz assms show ?thesis
      by (simp add: isr_def isr_receive_def isr_polarity_def Let_def hasData_def)
  qed
qed

theorem short_streak_not_finalized_witness:
  "MIN_PERIOD_TIME < periodTime (capture_state\<lparr>streak := 15\<rparr>) \<and>
   MAX_PULSE_PERIODS < pulse_periods 12000 (capture_state\<lparr>streak := 15\<rparr>) \<and>
   streak (capture_state\<lparr>streak := 15\<rparr>) < MIN_MSG_LEN \<and>
   (\<exists>s'. isr 12000 True (capture_state\<lparr>streak := 15\<rparr>) = Inr s' \<and> writer s' = 0 \<and>
         \<not> hasData s' \<and> streak s' = 1)"
proof -
  have h1: "MIN_PERIOD_TIME < periodTime (capture_state\<lparr>streak := 15\<rparr>)"
    by (simp add: capture_state_def)
  have h2: "MAX_PULSE_PERIODS < pulse_periods 12000 (capture_state\<lparr>streak := 15\<rparr>)"
    by (simp add: capture_state_def)
  have h3: "streak (capture_state\<lparr>streak := 15\<rparr>) < MIN_MSG_LEN"
    by (simp add: capture_state_def)
  from short_streak_not_finalized [OF h1 h2 h3] h1 h2 h3
  show ?thesis by (auto simp: capture_state_def hasData_def)
qed


section \<open>The full ring\<close>

text \<open>
  What the test \<open>index == reader\<close> achieves: when the target slot is \<open>reader\<close> the
  handler resets the streak and stores nothing, and one interrupt never changes a slot
  of the region committed when it starts.
\<close>

lemma isr_receive_full:
  "periods \<noteq> 0 \<Longrightarrow> 0 < streak s \<Longrightarrow> writer s + streak s = reader s \<Longrightarrow>
   isr_receive periods s = s\<lparr>streak := 0\<rparr>"
  by (simp add: isr_receive_def Let_def)

lemma committed_not_writer: "\<not> committed s (writer s)"
  by (simp add: committed_def)

lemma committed_not_target:
  assumes "streak_fits s" and "0 < streak s" and "writer s + streak s \<noteq> reader s"
  shows "\<not> committed s (writer s + streak s)"
proof -
  let ?c = "writer s - reader s" and ?k = "streak s"
  have ne: "?c + ?k \<noteq> 0" using assms(3) by (metis diff_add_eq eq_iff_diff_eq_0)
  have "unat ?c + unat ?k \<noteq> 256"
  proof
    assume "unat ?c + unat ?k = 256"
    then have "unat (?c + ?k) = 0" by (simp add: unat_word_ariths)
    then show False using ne by (simp add: unat_eq_0)
  qed
  with assms(1) have "unat ?c + unat ?k < 256" by (simp add: streak_fits_def)
  then have "unat (?c + ?k) = unat ?c + unat ?k" by (simp add: unat_word_ariths)
  then have nl: "\<not> ?c + ?k < ?c" by (simp add: word_less_nat_alt)
  have eq: "writer s + streak s - reader s = ?c + ?k" by simp
  show ?thesis unfolding committed_def eq using nl .
qed

lemma isr_keeps_committed:
  assumes fits: "streak_fits s" and run: "isr micros lowPulse s = Inr s'" and c: "committed s i"
  shows "msgbuf s' ! unat i = msgbuf s ! unat i \<and> reader s' = reader s"
proof -
  have w: "unat i \<noteq> unat (writer s)"
  proof
    assume "unat i = unat (writer s)"
    then have "i = writer s" by (simp add: word_unat_eq_iff)
    with c committed_not_writer [of s] show False by simp
  qed
  have t: "unat i \<noteq> unat (writer s + streak s)"
    if "0 < streak s" and "writer s + streak s \<noteq> reader s"
  proof
    assume "unat i = unat (writer s + streak s)"
    then have "i = writer s + streak s" by (simp add: word_unat_eq_iff)
    with c committed_not_target [OF fits that] show False by simp
  qed
  from run w t show ?thesis
    by (auto simp: isr_def isr_receive_def isr_polarity_def Let_def split: if_splits)
qed


lemma streak_fits_start: "streak_fits (startReceiving micros pin s)"
  by (simp add: streak_fits_def startReceiving_def)

lemma streak_fits_small:
  "unat (streak s) \<le> 1 \<Longrightarrow> streak_fits s"
  using unsigned_less [of "writer s - reader s", where 'a = nat] by (simp add: streak_fits_def)

lemma streak_fits_receive:
  assumes "streak_fits s"
  shows "streak_fits (isr_receive periods s)"
proof (cases "periods \<noteq> 0 \<and> 0 < streak s \<and> writer s + streak s \<noteq> reader s")
  case False
  then have "unat (streak (isr_receive periods s)) \<le> 1"
    by (auto simp: isr_receive_def Let_def word_gt_0)
  moreover have "writer (isr_receive periods s) = writer s" "reader (isr_receive periods s) = reader s"
    by (simp_all add: isr_receive_def Let_def)
  ultimately show ?thesis
    using unsigned_less [of "writer s - reader s", where 'a = nat] by (simp add: streak_fits_def)
next
  case True
  let ?c = "writer s - reader s" and ?k = "streak s"
  from True have r: "isr_receive periods s =
      s\<lparr>streak := ?k + 1, msgbuf := (msgbuf s)[unat (writer s + ?k) := periods]\<rparr>"
    by (simp add: isr_receive_def Let_def)
  have ne: "?c + ?k \<noteq> 0" using True by (metis diff_add_eq eq_iff_diff_eq_0)
  have "unat ?c + unat ?k \<noteq> 256"
  proof
    assume "unat ?c + unat ?k = 256"
    then have "unat (?c + ?k) = 0" by (simp add: unat_word_ariths)
    then show False using ne by (simp add: unat_eq_0)
  qed
  with assms have lt: "unat ?c + unat ?k < 256" by (simp add: streak_fits_def)
  have "unat (?k + 1) \<le> unat ?k + 1" by (simp add: unat_word_ariths) 
  with lt show ?thesis unfolding r by (simp add: streak_fits_def)
qed

lemma streak_fits_polarity:
  assumes "streak_fits s"
  shows "streak_fits (isr_polarity lowPulse pulseTime periods s)"
proof (cases "lowPulse \<and> MIN_PERIOD_TIME < periodTime s \<and> MAX_PULSE_PERIODS < periods")
  case True
  then have "streak (isr_polarity lowPulse pulseTime periods s) = 1"
    by (simp add: isr_polarity_def Let_def)
  then show ?thesis by (intro streak_fits_small) simp
next
  case False
  then have "writer (isr_polarity lowPulse pulseTime periods s) = writer s"
    "reader (isr_polarity lowPulse pulseTime periods s) = reader s"
    "streak (isr_polarity lowPulse pulseTime periods s) = streak s \<or>
     streak (isr_polarity lowPulse pulseTime periods s) = 0"
    by (auto simp: isr_polarity_def Let_def)
  with assms show ?thesis by (auto simp: streak_fits_def)
qed

lemma isr_keeps_streak_fits:
  assumes "streak_fits s" and "isr micros lowPulse s = Inr s'"
  shows "streak_fits s'"
proof -
  let ?s1 = "s\<lparr>lastTime := ucast (micros div PULSE_LENGTH_DIVIDER),
               duration := pulse_time micros s, new_duration := True\<rparr>"
  have "streak_fits ?s1" using assms(1) by (simp add: streak_fits_def)
  then have "streak_fits (isr_polarity lowPulse (pulse_time micros s) (pulse_periods micros s)
                (isr_receive (pulse_periods micros s) ?s1))"
    by (intro streak_fits_polarity streak_fits_receive)
  with assms(2) show ?thesis by (auto simp: isr_def Let_def split: if_splits)
qed

lemma byte_minus_20: "(- 20 :: byte) = 236"
  by simp

lemma full_ring_sync:
  "isr 12000 True full_ring_state =
     Inr (full_ring_state\<lparr>lastTime := 3000, duration := 3000, new_duration := True,
            msgbuf := (replicate 256 2)[19 := 30, 0 := 100], writer := 20, streak := 1\<rparr>)"
  by (simp add: full_ring_state_def isr_def isr_receive_def isr_polarity_def)

lemma full_ring_next:
  "isr 12400 False
     (full_ring_state\<lparr>lastTime := 3000, duration := 3000, new_duration := True,
        msgbuf := (replicate 256 2)[19 := 30, 0 := 100], writer := 20, streak := 1\<rparr>) =
     Inr (full_ring_state\<lparr>lastTime := 3100, duration := 100, new_duration := True,
            msgbuf := (replicate 256 2)[19 := 30, 0 := 100, 21 := 1], writer := 20,
            streak := 2\<rparr>)"
  by (simp add: full_ring_state_def isr_def isr_receive_def isr_polarity_def)

text \<open>
  C6. The claim: the test \<open>index == reader\<close> keeps the capture path out of the committed
  region, so that unconsumed finalized messages are never overwritten. In
  \<open>full_ring_state\<close> the slots 20 to 255 hold unconsumed messages (\<open>hasData\<close> is true,
  slot 21 is committed and holds 2) and the capture in progress is within the free part. A sync pulse is stored at slot 19, which is not \<open>reader\<close>, and
  finalizes a message of 20 slots: \<open>writer\<close> becomes 20, equal to \<open>reader\<close>. The next
  pulse is stored at slot 21, which is not \<open>reader\<close> either, over the unconsumed message
  there; \<open>reader\<close> is still 20.
\<close>

theorem isr_overwrites_unconsumed_slot:
  "streak_fits full_ring_state \<and> hasData full_ring_state \<and>
   committed full_ring_state 21 \<and> msgbuf full_ring_state ! 21 = 2 \<and>
   isr_run [(12000, True), (12400, False)] full_ring_state =
     Inr (full_ring_state\<lparr>lastTime := 3100, duration := 100, new_duration := True,
            msgbuf := (replicate 256 2)[19 := 30, 0 := 100, 21 := 1], writer := 20,
            streak := 2\<rparr>) \<and>
   (replicate 256 (2 :: uint))[19 := 30, 0 := 100, 21 := 1] ! 21 = 1"
  by (simp add: full_ring_sync full_ring_next)
    (simp add: full_ring_state_def hasData_def streak_fits_def committed_def byte_minus_20)

section \<open>Reading a message and advancing\<close>

lemma ring_getRaw:
  "getRaw 512 ring_state =
     ((0, 16),
      ring_state\<lparr>msgbuf :=
        [100, 100, 200, 100, 100, 200, 100, 100, 200, 100, 100, 200, 100, 100, 200, 3000, 30]
          @ replicate 495 0\<rparr>)"
  by (simp add: getRaw_def ring_state_def getRaw_loop.simps)

lemma ring_continue_after_getRaw:
  "continueReceiving
     (ring_state\<lparr>msgbuf :=
        [100, 100, 200, 100, 100, 200, 100, 100, 200, 100, 100, 200, 100, 100, 200, 3000, 30]
          @ replicate 495 0\<rparr>) =
   ring_state\<lparr>msgbuf :=
        [100, 100, 200, 100, 100, 200, 100, 100, 200, 100, 100, 200, 100, 100, 200, 3000, 30]
          @ replicate 495 0,
      reader := 2\<rparr>"
  by (simp add: continueReceiving_def ring_state_def continue_loop.simps)

lemma ring_getRaw_again:
  "getRaw 512
     (ring_state\<lparr>msgbuf :=
        [100, 100, 200, 100, 100, 200, 100, 100, 200, 100, 100, 200, 100, 100, 200, 3000, 30]
          @ replicate 495 0,
      reader := 2\<rparr>) =
   ((2, 1),
    ring_state\<lparr>msgbuf :=
        [100, 100, 20000, 100, 100, 200, 100, 100, 200, 100, 100, 200, 100, 100, 200, 3000, 30]
          @ replicate 495 0,
      reader := 2\<rparr>)"
  by (simp add: getRaw_def ring_state_def getRaw_loop.simps)

lemma ring_continue_alone: "continueReceiving ring_state = ring_state\<lparr>reader := 17\<rparr>"
  by (simp add: continueReceiving_def ring_state_def continue_loop.simps)

text \<open>
  C7. The claim: \<open>continueReceiving\<close> moves \<open>reader\<close> past exactly one message, so that
  \<open>getRaw\<close> followed by \<open>continueReceiving\<close> never exposes the same message again. In
  \<open>ring_state\<close> one message of 17 slots is pending. \<open>getRaw\<close> exposes its 16 durations and
  has stored them over the slots 0 to 15, the slots \<open>continueReceiving\<close> scans for period
  counts of at most 20. After \<open>getRaw\<close>, \<open>continueReceiving\<close> stops at slot 1 (the duration
  100) and leaves \<open>reader = 2\<close>, not 17: \<open>hasData\<close> is still true and the next \<open>getRaw\<close>
  exposes one value made from two durations of the message just read.
\<close>

theorem getRaw_then_continue_stays_in_message:
  "exposed (getRaw 512 ring_state) =
     [100, 100, 200, 100, 100, 200, 100, 100, 200, 100, 100, 200, 100, 100, 200, 3000] \<and>
   reader (continueReceiving (snd (getRaw 512 ring_state))) = 2 \<and>
   writer (continueReceiving (snd (getRaw 512 ring_state))) = 17 \<and>
   hasData (continueReceiving (snd (getRaw 512 ring_state))) \<and>
   exposed (getRaw 512 (continueReceiving (snd (getRaw 512 ring_state)))) = [20000]"
  unfolding ring_getRaw snd_conv ring_continue_after_getRaw ring_getRaw_again
  by (simp add: ring_state_def hasData_def exposed_def)


section \<open>Order of the bucket table\<close>

lemma swap_step_Cons: "swap_step (Suc j) (a # l) = a # swap_step j l"
  by (simp add: swap_step_def)

lemma fold_swap_Cons: "fold swap_step (map Suc js) (a # l) = a # fold swap_step js l"
  by (induction js arbitrary: l) (simp_all add: swap_step_Cons)

lemma swap_step_0: "swap_step 0 (x # y # xs) = (if y < x then y # x # xs else x # y # xs)"
  by (simp add: swap_step_def)

lemma pass_eq_bubble: "fold swap_step [0..<length xs - 1] xs = bubble xs"
proof (induction xs rule: bubble.induct)
  case (1 x y xs)
  have upt: "[0..<Suc (length xs)] = 0 # map Suc [0..<length xs]"
    by (simp add: upt_conv_Cons map_Suc_upt del: upt_Suc)
  show ?case
  proof (cases "y < x")
    case True
    with 1(1) have ih: "fold swap_step [0..<length xs] (x # xs) = bubble (x # xs)" by simp
    have "fold swap_step [0..<length (x # y # xs) - 1] (x # y # xs) =
          fold swap_step (map Suc [0..<length xs]) (swap_step 0 (x # y # xs))"
      using upt by simp
    also have "\<dots> = y # fold swap_step [0..<length xs] (x # xs)"
      using True by (simp add: swap_step_0 fold_swap_Cons)
    finally show ?thesis using True ih by simp
  next
    case False
    with 1(2) have ih: "fold swap_step [0..<length xs] (y # xs) = bubble (y # xs)" by simp
    have "fold swap_step [0..<length (x # y # xs) - 1] (x # y # xs) =
          fold swap_step (map Suc [0..<length xs]) (swap_step 0 (x # y # xs))"
      using upt by simp
    also have "\<dots> = x # fold swap_step [0..<length xs] (y # xs)"
      using False by (simp add: swap_step_0 fold_swap_Cons)
    finally show ?thesis using False ih by simp
  qed
qed simp_all

lemma bubble_pass_eq: "length b = 8 \<Longrightarrow> bubble_pass b = bubble b"
  using pass_eq_bubble [of b] by (simp add: bubble_pass_def)

lemma length_bubble: "length (bubble xs) = length xs"
  by (induction xs rule: bubble.induct) simp_all

lemma set_bubble: "set (bubble xs) = set xs"
  by (induction xs rule: bubble.induct) auto

lemma bubble_Nil_iff: "bubble xs = [] \<longleftrightarrow> xs = []"
  using length_bubble [of xs] by (metis length_0_conv)

lemma bubble_sorted_id: "sorted xs \<Longrightarrow> bubble xs = xs"
  by (induction xs rule: bubble.induct) auto

lemma bubble_last_max: "xs \<noteq> [] \<Longrightarrow> z \<in> set xs \<Longrightarrow> z \<le> last (bubble xs)"
proof (induction xs arbitrary: z rule: bubble.induct)
  case (1 x y xs)
  show ?case
  proof (cases "y < x")
    case True
    have ne: "bubble (x # xs) \<noteq> []" by (simp add: bubble_Nil_iff)
    have "z \<le> last (bubble (x # xs))"
    proof (cases "z = y")
      case True
      have "x \<le> last (bubble (x # xs))" using 1(1) [OF \<open>y < x\<close>, of x] by simp
      with True \<open>y < x\<close> show ?thesis by simp
    next
      case False
      with "1.prems" have "z \<in> set (x # xs)" by auto
      with 1(1) [OF \<open>y < x\<close>] show ?thesis by simp
    qed
    with True ne show ?thesis by simp
  next
    case False
    have ne: "bubble (y # xs) \<noteq> []" by (simp add: bubble_Nil_iff)
    have "z \<le> last (bubble (y # xs))"
    proof (cases "z = x")
      case True
      have "y \<le> last (bubble (y # xs))" using 1(2) [OF False, of y] by simp
      with True False show ?thesis by simp
    next
      case False
      with "1.prems" have "z \<in> set (y # xs)" by auto
      with 1(2) [OF \<open>\<not> y < x\<close>] show ?thesis by simp
    qed
    with False ne show ?thesis by simp
  qed
qed simp_all

lemma bubble_append:
  "us \<noteq> [] \<Longrightarrow> sorted vs \<Longrightarrow> \<forall>u\<in>set us. \<forall>v\<in>set vs. u \<le> v \<Longrightarrow>
   bubble (us @ vs) = bubble us @ vs"
proof (induction us rule: bubble.induct)
  case (1 x y xs)
  then show ?case by (cases "y < x") simp_all
next
  case (2 v)
  then have "sorted (v # vs)" by simp
  then show ?case using bubble_sorted_id [of "v # vs"] by simp
next
  case 3
  then show ?case by simp
qed

lemma settled_0: "settled 0 xs"
  by (simp add: settled_def)

lemma settled_step:
  assumes "settled k xs" and "k < length xs"
  shows "settled (Suc k) (bubble xs)"
proof -
  from assms(1) obtain us vs where xs: "xs = us @ vs" and len: "length vs = k"
    and srt: "sorted vs" and le: "\<forall>u\<in>set us. \<forall>v\<in>set vs. u \<le> v"
    by (auto simp: settled_def)
  from xs len assms(2) have ne: "us \<noteq> []" by auto
  then have bne: "bubble us \<noteq> []" by (simp add: bubble_Nil_iff)
  let ?m = "last (bubble us)"
  have b: "bubble xs = butlast (bubble us) @ (?m # vs)"
    using bubble_append [OF ne srt le] xs bne by simp
  have "?m \<in> set (bubble us)" using bne by (rule last_in_set)
  then have m_in: "?m \<in> set us" by (simp only: set_bubble)
  have s1: "sorted (?m # vs)" using srt le m_in by simp
  have s2: "\<forall>u\<in>set (butlast (bubble us)). \<forall>v\<in>set (?m # vs). u \<le> v"
  proof (intro ballI)
    fix u v assume u: "u \<in> set (butlast (bubble us))" and v: "v \<in> set (?m # vs)"
    from u have "u \<in> set (bubble us)" by (rule in_set_butlastD)
    then have uin: "u \<in> set us" by (simp only: set_bubble)
    then have um: "u \<le> ?m" using bubble_last_max [OF ne] by simp
    from v have "v = ?m \<or> v \<in> set vs" by simp
    then show "u \<le> v"
    proof
      assume "v = ?m" with um show ?thesis by simp
    next
      assume "v \<in> set vs" with uin le show ?thesis by simp
    qed
  qed
  have len': "length (?m # vs) = Suc k" using len by simp
  show ?thesis unfolding settled_def
  proof (intro exI conjI)
    show "bubble xs = butlast (bubble us) @ (?m # vs)" by (rule b)
    show "length (?m # vs) = Suc k" by (rule len')
    show "sorted (?m # vs)" by (rule s1)
    show "\<forall>u\<in>set (butlast (bubble us)). \<forall>v\<in>set (?m # vs). u \<le> v" by (rule s2)
  qed
qed

lemma settled_all: "settled (length xs) xs \<Longrightarrow> sorted xs"
  by (auto simp: settled_def)

lemma length_bubble_iter: "length ((bubble ^^ n) xs) = length xs"
  by (induction n) (simp_all add: length_bubble)

lemma settled_iter: "n \<le> length xs \<Longrightarrow> settled n ((bubble ^^ n) xs)"
proof (induction n)
  case 0
  show ?case by (simp add: settled_0)
next
  case (Suc n)
  then have "settled n ((bubble ^^ n) xs)" by simp
  moreover from Suc.prems have "n < length ((bubble ^^ n) xs)" by (simp add: length_bubble_iter)
  ultimately have "settled (Suc n) (bubble ((bubble ^^ n) xs))" by (rule settled_step)
  then show ?case by simp
qed

lemma bubble_pass_iter: "length b = 8 \<Longrightarrow> (bubble_pass ^^ n) b = (bubble ^^ n) b"
  by (induction n) (simp_all add: bubble_pass_eq length_bubble_iter)

lemma bubble_sort_funpow: "bubble_sort b = (bubble_pass ^^ 8) b"
  by (simp add: bubble_sort_def upt_0_8 eval_nat_numeral)

lemma bubble_sort_sorted:
  assumes "length b = 8"
  shows "sorted (bubble_sort b) \<and> length (bubble_sort b) = 8"
proof -
  have eq: "bubble_sort b = (bubble ^^ 8) b"
    using assms by (simp only: bubble_sort_funpow bubble_pass_iter)
  have "settled 8 ((bubble ^^ 8) b)" using settled_iter [of 8 b] assms by simp
  then have "sorted ((bubble ^^ 8) b)"
    using settled_all [of "(bubble ^^ 8) b"] assms by (simp add: length_bubble_iter)
  with eq assms show ?thesis by (simp add: length_bubble_iter)
qed


lemma list8:
  assumes "length (b :: uint list) = 8"
  obtains a0 a1 a2 a3 a4 a5 a6 a7 where "b = [a0, a1, a2, a3, a4, a5, a6, a7]"
proof -
  from assms have "length b = Suc (Suc (Suc (Suc (Suc (Suc (Suc (Suc 0)))))))"
    by (simp add: eval_nat_numeral)
  then show ?thesis using that by (auto simp: length_Suc_conv)
qed

lemma word_le_nonzero: "(x :: uint) \<le> y \<Longrightarrow> x \<noteq> 0 \<Longrightarrow> y \<noteq> 0"
  by auto

lemma canonicalI:
  "b = nz @ replicate (8 - length nz) 0 \<Longrightarrow> length nz \<le> 8 \<Longrightarrow> 0 \<notin> set nz \<Longrightarrow> sorted nz \<Longrightarrow>
   canonical b"
  unfolding canonical_def by blast

lemma compact_case0:
  assumes "a0 \<noteq> 0" and "sorted [a0, a1, a2, a3, a4, a5, a6, a7]"
  shows "canonical (compact_loop (8 - find_first 0 [a0, a1, a2, a3, a4, a5, a6, a7]) 0 (find_first 0 [a0, a1, a2, a3, a4, a5, a6, a7]) [a0, a1, a2, a3, a4, a5, a6, a7])"
proof -
  have f: "find_first 0 [a0, a1, a2, a3, a4, a5, a6, a7] = 0"
    using assms(1) by (simp add: find_first.simps)
  have c: "compact_loop (8 - 0) 0 0 [a0, a1, a2, a3, a4, a5, a6, a7] = [0, 0, 0, 0, 0, 0, 0, 0]"
    by (simp add: compact_loop.simps)
  have nz: "0 \<notin> set []"
    using assms by (auto dest: word_le_nonzero)
  have srt: "sorted []"
    using assms(2) by simp
  show ?thesis unfolding f c
    by (rule canonicalI [of _ "[]"]) (use nz srt in \<open>simp_all add: eval_nat_numeral\<close>)
qed

lemma compact_case1:
  assumes "a1 \<noteq> 0" and "sorted [0, a1, a2, a3, a4, a5, a6, a7]"
  shows "canonical (compact_loop (8 - find_first 0 [0, a1, a2, a3, a4, a5, a6, a7]) 0 (find_first 0 [0, a1, a2, a3, a4, a5, a6, a7]) [0, a1, a2, a3, a4, a5, a6, a7])"
proof -
  have f: "find_first 0 [0, a1, a2, a3, a4, a5, a6, a7] = 1"
    using assms(1) by (simp add: find_first.simps)
  have c: "compact_loop (8 - 1) 0 1 [0, a1, a2, a3, a4, a5, a6, a7] = [a1, a2, a3, a4, a5, a6, a7, 0]"
    by (simp add: compact_loop.simps)
  have nz: "0 \<notin> set [a1, a2, a3, a4, a5, a6, a7]"
    using assms by (auto dest: word_le_nonzero)
  have srt: "sorted [a1, a2, a3, a4, a5, a6, a7]"
    using assms(2) by simp
  show ?thesis unfolding f c
    by (rule canonicalI [of _ "[a1, a2, a3, a4, a5, a6, a7]"]) (use nz srt in \<open>simp_all add: eval_nat_numeral\<close>)
qed

lemma compact_case2:
  assumes "a2 \<noteq> 0" and "sorted [0, 0, a2, a3, a4, a5, a6, a7]"
  shows "canonical (compact_loop (8 - find_first 0 [0, 0, a2, a3, a4, a5, a6, a7]) 0 (find_first 0 [0, 0, a2, a3, a4, a5, a6, a7]) [0, 0, a2, a3, a4, a5, a6, a7])"
proof -
  have f: "find_first 0 [0, 0, a2, a3, a4, a5, a6, a7] = 2"
    using assms(1) by (simp add: find_first.simps)
  have c: "compact_loop (8 - 2) 0 2 [0, 0, a2, a3, a4, a5, a6, a7] = [a2, a3, a4, a5, a6, a7, 0, 0]"
    by (simp add: compact_loop.simps)
  have nz: "0 \<notin> set [a2, a3, a4, a5, a6, a7]"
    using assms by (auto dest: word_le_nonzero)
  have srt: "sorted [a2, a3, a4, a5, a6, a7]"
    using assms(2) by simp
  show ?thesis unfolding f c
    by (rule canonicalI [of _ "[a2, a3, a4, a5, a6, a7]"]) (use nz srt in \<open>simp_all add: eval_nat_numeral\<close>)
qed

lemma compact_case3:
  assumes "a3 \<noteq> 0" and "sorted [0, 0, 0, a3, a4, a5, a6, a7]"
  shows "canonical (compact_loop (8 - find_first 0 [0, 0, 0, a3, a4, a5, a6, a7]) 0 (find_first 0 [0, 0, 0, a3, a4, a5, a6, a7]) [0, 0, 0, a3, a4, a5, a6, a7])"
proof -
  have f: "find_first 0 [0, 0, 0, a3, a4, a5, a6, a7] = 3"
    using assms(1) by (simp add: find_first.simps)
  have c: "compact_loop (8 - 3) 0 3 [0, 0, 0, a3, a4, a5, a6, a7] = [a3, a4, a5, a6, a7, 0, 0, 0]"
    by (simp add: compact_loop.simps)
  have nz: "0 \<notin> set [a3, a4, a5, a6, a7]"
    using assms by (auto dest: word_le_nonzero)
  have srt: "sorted [a3, a4, a5, a6, a7]"
    using assms(2) by simp
  show ?thesis unfolding f c
    by (rule canonicalI [of _ "[a3, a4, a5, a6, a7]"]) (use nz srt in \<open>simp_all add: eval_nat_numeral\<close>)
qed

lemma compact_case4:
  assumes "a4 \<noteq> 0" and "sorted [0, 0, 0, 0, a4, a5, a6, a7]"
  shows "canonical (compact_loop (8 - find_first 0 [0, 0, 0, 0, a4, a5, a6, a7]) 0 (find_first 0 [0, 0, 0, 0, a4, a5, a6, a7]) [0, 0, 0, 0, a4, a5, a6, a7])"
proof -
  have f: "find_first 0 [0, 0, 0, 0, a4, a5, a6, a7] = 4"
    using assms(1) by (simp add: find_first.simps)
  have c: "compact_loop (8 - 4) 0 4 [0, 0, 0, 0, a4, a5, a6, a7] = [a4, a5, a6, a7, 0, 0, 0, 0]"
    by (simp add: compact_loop.simps)
  have nz: "0 \<notin> set [a4, a5, a6, a7]"
    using assms by (auto dest: word_le_nonzero)
  have srt: "sorted [a4, a5, a6, a7]"
    using assms(2) by simp
  show ?thesis unfolding f c
    by (rule canonicalI [of _ "[a4, a5, a6, a7]"]) (use nz srt in \<open>simp_all add: eval_nat_numeral\<close>)
qed

lemma compact_case5:
  assumes "a5 \<noteq> 0" and "sorted [0, 0, 0, 0, 0, a5, a6, a7]"
  shows "canonical (compact_loop (8 - find_first 0 [0, 0, 0, 0, 0, a5, a6, a7]) 0 (find_first 0 [0, 0, 0, 0, 0, a5, a6, a7]) [0, 0, 0, 0, 0, a5, a6, a7])"
proof -
  have f: "find_first 0 [0, 0, 0, 0, 0, a5, a6, a7] = 5"
    using assms(1) by (simp add: find_first.simps)
  have c: "compact_loop (8 - 5) 0 5 [0, 0, 0, 0, 0, a5, a6, a7] = [a5, a6, a7, 0, 0, 0, 0, 0]"
    by (simp add: compact_loop.simps)
  have nz: "0 \<notin> set [a5, a6, a7]"
    using assms by (auto dest: word_le_nonzero)
  have srt: "sorted [a5, a6, a7]"
    using assms(2) by simp
  show ?thesis unfolding f c
    by (rule canonicalI [of _ "[a5, a6, a7]"]) (use nz srt in \<open>simp_all add: eval_nat_numeral\<close>)
qed

lemma compact_case6:
  assumes "a6 \<noteq> 0" and "sorted [0, 0, 0, 0, 0, 0, a6, a7]"
  shows "canonical (compact_loop (8 - find_first 0 [0, 0, 0, 0, 0, 0, a6, a7]) 0 (find_first 0 [0, 0, 0, 0, 0, 0, a6, a7]) [0, 0, 0, 0, 0, 0, a6, a7])"
proof -
  have f: "find_first 0 [0, 0, 0, 0, 0, 0, a6, a7] = 6"
    using assms(1) by (simp add: find_first.simps)
  have c: "compact_loop (8 - 6) 0 6 [0, 0, 0, 0, 0, 0, a6, a7] = [a6, a7, 0, 0, 0, 0, 0, 0]"
    by (simp add: compact_loop.simps)
  have nz: "0 \<notin> set [a6, a7]"
    using assms by (auto dest: word_le_nonzero)
  have srt: "sorted [a6, a7]"
    using assms(2) by simp
  show ?thesis unfolding f c
    by (rule canonicalI [of _ "[a6, a7]"]) (use nz srt in \<open>simp_all add: eval_nat_numeral\<close>)
qed

lemma compact_case7:
  assumes "a7 \<noteq> 0" and "sorted [0, 0, 0, 0, 0, 0, 0, a7]"
  shows "canonical (compact_loop (8 - find_first 0 [0, 0, 0, 0, 0, 0, 0, a7]) 0 (find_first 0 [0, 0, 0, 0, 0, 0, 0, a7]) [0, 0, 0, 0, 0, 0, 0, a7])"
proof -
  have f: "find_first 0 [0, 0, 0, 0, 0, 0, 0, a7] = 7"
    using assms(1) by (simp add: find_first.simps)
  have c: "compact_loop (8 - 7) 0 7 [0, 0, 0, 0, 0, 0, 0, a7] = [a7, 0, 0, 0, 0, 0, 0, 0]"
    by (simp add: compact_loop.simps)
  have nz: "0 \<notin> set [a7]"
    using assms by (auto dest: word_le_nonzero)
  have srt: "sorted [a7]"
    using assms(2) by simp
  show ?thesis unfolding f c
    by (rule canonicalI [of _ "[a7]"]) (use nz srt in \<open>simp_all add: eval_nat_numeral\<close>)
qed

lemma compact_case_none:
  "canonical (compact_loop (8 - find_first 0 [0, 0, 0, 0, 0, 0, 0, 0]) 0
     (find_first 0 [0, 0, 0, 0, 0, 0, 0, 0]) [0, 0, 0, 0, 0, 0, 0, 0])"
proof -
  have f: "find_first 0 [0, 0, 0, 0, 0, 0, 0, 0] = 0"
    by (simp add: find_first.simps)
  have c: "compact_loop (8 - 0) 0 0 [0, 0, 0, 0, 0, 0, 0, 0] = [0, 0, 0, 0, 0, 0, 0, 0]"
    by (simp add: compact_loop.simps)
  show ?thesis unfolding f c
    by (rule canonicalI [of _ "[]"]) (simp_all add: eval_nat_numeral)
qed

lemma compact_canonical:
  assumes "length b = 8" and "sorted b"
  shows "canonical (compact_loop (8 - find_first 0 b) 0 (find_first 0 b) b)"
proof -
  from assms(1) obtain a0 a1 a2 a3 a4 a5 a6 a7 where b: "b = [a0, a1, a2, a3, a4, a5, a6, a7]"
    by (rule list8)
  consider "a0 \<noteq> 0"
    | "a0 = 0" "a1 \<noteq> 0"
    | "a0 = 0" "a1 = 0" "a2 \<noteq> 0"
    | "a0 = 0" "a1 = 0" "a2 = 0" "a3 \<noteq> 0"
    | "a0 = 0" "a1 = 0" "a2 = 0" "a3 = 0" "a4 \<noteq> 0"
    | "a0 = 0" "a1 = 0" "a2 = 0" "a3 = 0" "a4 = 0" "a5 \<noteq> 0"
    | "a0 = 0" "a1 = 0" "a2 = 0" "a3 = 0" "a4 = 0" "a5 = 0" "a6 \<noteq> 0"
    | "a0 = 0" "a1 = 0" "a2 = 0" "a3 = 0" "a4 = 0" "a5 = 0" "a6 = 0" "a7 \<noteq> 0"
    | "a0 = 0" "a1 = 0" "a2 = 0" "a3 = 0" "a4 = 0" "a5 = 0" "a6 = 0" "a7 = 0"
    by blast
  then show ?thesis
  proof cases
    case 1
    with assms(2) show ?thesis unfolding b by (simp add: compact_case0)
  next
    case 2
    with assms(2) show ?thesis unfolding b by (simp add: compact_case1)
  next
    case 3
    with assms(2) show ?thesis unfolding b by (simp add: compact_case2)
  next
    case 4
    with assms(2) show ?thesis unfolding b by (simp add: compact_case3)
  next
    case 5
    with assms(2) show ?thesis unfolding b by (simp add: compact_case4)
  next
    case 6
    with assms(2) show ?thesis unfolding b by (simp add: compact_case5)
  next
    case 7
    with assms(2) show ?thesis unfolding b by (simp add: compact_case6)
  next
    case 8
    with assms(2) show ?thesis unfolding b by (simp add: compact_case7)
  next
    case 9
    then show ?thesis unfolding b by (simp add: compact_case_none)
  qed
qed


lemma csb_inner_length: "length (buckets (snd (csb_inner val j st))) = length (buckets st)"
proof (induction val j st rule: csb_inner.induct)
  case (1 val j st)
  show ?case by (subst csb_inner.simps) (use 1 in \<open>auto simp: Let_def\<close>)
qed

lemma csb_outer_length: "length (buckets (snd (csb_outer timings i st))) = length (buckets st)"
proof (induction timings i st rule: csb_outer.induct)
  case (1 timings i st)
  show ?case
  proof (cases "i < length timings")
    case True
    obtain j st' where r: "csb_inner (timings ! i) 0 st = (j, st')"
      by (cases "csb_inner (timings ! i) 0 st")
    then have l: "length (buckets st') = length (buckets st)"
      using csb_inner_length [of "timings ! i" 0 st] by simp
    show ?thesis
    proof (cases "j = 8")
      case True
      with \<open>i < length timings\<close> r l show ?thesis by (subst csb_outer.simps) simp
    next
      case False
      with 1 [OF \<open>i < length timings\<close> r [symmetric] False] \<open>i < length timings\<close> r l
      show ?thesis by (subst csb_outer.simps) simp
    qed
  next
    case False
    then show ?thesis by (subst csb_outer.simps) simp
  qed
qed

lemma average_fold_length:
  "length (buckets (fold average_step js st)) = length (buckets st)"
  by (induction js arbitrary: st) (simp_all add: average_step_def)

lemma average_length: "length (buckets (average_buckets st)) = length (buckets st)"
  by (simp add: average_buckets_def average_fold_length)

text \<open>
  The order of the table: whenever \<open>compressTimingsAndSortBuckets\<close> returns true, the
  \<open>buckets\<close> array it leaves is a run of non-zero entries in non-decreasing order followed
  by zeros only, eight entries in all. This says nothing of where the entries come from.
\<close>

lemma sorted_buckets_canonical:
  assumes "compressTimingsAndSortBuckets timings = (True, b, t)"
  shows "\<exists>nz. b = nz @ replicate (8 - length nz) 0 \<and> length nz \<le> 8 \<and> 0 \<notin> set nz \<and> sorted nz"
proof -
  obtain ok st where pass1: "csb_outer timings 0 init_buckets = (ok, st)"
    by (cases "csb_outer timings 0 init_buckets")
  with assms have ok: "ok" unfolding compressTimingsAndSortBuckets_def by (cases ok) simp_all
  let ?b1 = "buckets (average_buckets st)"
  let ?b2 = "bubble_sort ?b1"
  have "length (buckets st) = 8"
    using csb_outer_length [of timings 0 init_buckets] pass1 by (simp add: init_buckets_def)
  then have "length ?b1 = 8" by (simp add: average_length)
  then have "sorted ?b2 \<and> length ?b2 = 8" by (rule bubble_sort_sorted)
  then have "canonical (compact_loop (8 - find_first 0 ?b2) 0 (find_first 0 ?b2) ?b2)"
    by (simp add: compact_canonical)
  moreover have "b = compact_loop (8 - find_first 0 ?b2) 0 (find_first 0 ?b2) ?b2"
    using assms pass1 ok unfolding compressTimingsAndSortBuckets_def by (simp add: Let_def)
  ultimately show ?thesis by (simp add: canonical_def)
qed

lemma three_pass1:
  "csb_outer [100, 200, 100, 200, 1000] 0 init_buckets =
     (True, \<lparr>buckets = [100, 200, 1000, 0, 0, 0, 0, 0],
             sums = [200, 400, 1000, 0, 0, 0, 0, 0],
             counts = [2, 2, 1, 0, 0, 0, 0, 0]\<rparr>)"
  by (simp add: init_buckets_def csb_outer.simps csb_inner.simps)

lemma three_average:
  "buckets (average_buckets \<lparr>buckets = [100, 200, 1000, 0, 0, 0, 0, 0],
             sums = [200, 400, 1000, 0, 0, 0, 0, 0],
             counts = [2, 2, 1, 0, 0, 0, 0, 0]\<rparr>) = [100, 200, 1000, 0, 0, 0, 0, 0]"
  by (simp add: average_buckets_def average_step_def upt_0_8)

lemma funpow_8: "(f ^^ 8) x = f (f (f (f (f (f (f (f x)))))))"
  by (simp add: eval_nat_numeral)

lemma three_sort:
  "bubble_sort [100, 200, 1000, 0, 0, 0, 0, 0] = [0, 0, 0, 0, 0, 100, 200, 1000]"
proof -
  have "bubble_sort [100, 200, 1000, 0, 0, 0, 0, 0] = (bubble ^^ 8) [100, 200, 1000, 0, 0, 0, 0, 0]"
    by (simp add: bubble_sort_funpow bubble_pass_iter)
  also have "\<dots> = [0, 0, 0, 0, 0, 100, 200, 1000]"
    by (simp add: funpow_8)
  finally show ?thesis .
qed

lemma three_first: "find_first 0 [0, 0, 0, 0, 0, 100, 200, 1000] = 5"
  by (simp add: find_first.simps)

lemma three_compact:
  "compact_loop (8 - 5) 0 5 [0, 0, 0, 0, 0, 100, 200, 1000] = [100, 200, 1000, 0, 0, 0, 0, 0]"
  by (simp add: compact_loop.simps)

lemma three_bands:
  "ref_Val_l [100, 200, 1000, 0, 0, 0, 0, 0] = [63, 125, 625, 0, 0, 0, 0, 0]"
  "ref_Val_h [100, 200, 1000, 0, 0, 0, 0, 0] = [137, 275, 1375, 0, 0, 0, 0, 0]"
  by (simp_all add: ref_Val_l_def ref_Val_h_def)

lemma three_relabel:
  "relabel_outer [63, 125, 625, 0, 0, 0, 0, 0] [137, 275, 1375, 0, 0, 0, 0, 0]
     (length [100, 200, 100, 200, 1000 :: uint]) 0 [100, 200, 100, 200, 1000] = [0, 1, 0, 1, 2]"
  by (simp add: relabel_outer.simps relabel_inner.simps)

lemma three_classes:
  "compressTimingsAndSortBuckets [100, 200, 100, 200, 1000] =
     (True, [100, 200, 1000, 0, 0, 0, 0, 0], [0, 1, 0, 1, 2])"
  unfolding compressTimingsAndSortBuckets_def three_pass1
  by (simp only: prod.case bool.case Let_def three_average three_sort three_first
        three_compact three_bands three_relabel)

lemma sorted_buckets_canonical_example:
  "compressTimingsAndSortBuckets [100, 200, 100, 200, 1000] =
     (True, [100, 200, 1000, 0, 0, 0, 0, 0], [0, 1, 0, 1, 2]) \<and>
   (\<exists>nz. [100, 200, 1000, 0, 0, 0, 0, 0] = nz @ replicate (8 - length nz) (0 :: uint) \<and>
         length nz \<le> 8 \<and> 0 \<notin> set nz \<and> sorted nz)"
  using sorted_buckets_canonical [OF three_classes] three_classes by simp


section \<open>compressTimings is first fit\<close>

lemma put_member_empty:
  "buckets st ! j = 0 \<Longrightarrow>
   put_member j v st =
     st\<lparr>buckets := (buckets st)[j := v],
        sums := (sums st)[j := sums st ! j + ucast v],
        counts := (counts st)[j := counts st ! j + 1]\<rparr>"
  by (simp add: put_member_def)

lemma put_member_used:
  "buckets st ! j \<noteq> 0 \<Longrightarrow>
   put_member j v st =
     st\<lparr>sums := (sums st)[j := sums st ! j + ucast v],
        counts := (counts st)[j := counts st ! j + 1]\<rparr>"
  by (simp add: put_member_def)

lemma ct_inner_find:
  "j \<le> 8 \<Longrightarrow>
   ct_inner i j st timings =
     (case find (\<lambda>k. accepts (buckets st ! k) (timings ! i)) [j..<8] of
        None \<Rightarrow> (8, st, timings)
      | Some k \<Rightarrow> (k, put_member k (timings ! i) st, timings[i := of_nat k]))"
proof (induction i j st timings rule: ct_inner.induct)
  case (1 i j st timings)
  show ?case
  proof (cases "j < 8")
    case False
    with "1.prems" have "j = 8" by simp
    then show ?thesis by (subst ct_inner.simps) simp
  next
    case True
    then have upt: "[j..<8] = j # [j + 1..<8]" by (simp add: upt_conv_Cons)
    show ?thesis
    proof (cases "accepts (buckets st ! j) (timings ! i)")
      case acc: True
      show ?thesis
      proof (cases "buckets st ! j = 0")
        case True
        with acc \<open>j < 8\<close> show ?thesis
          by (subst ct_inner.simps) (simp add: upt put_member_empty Let_def)
      next
        case False
        with acc \<open>j < 8\<close> show ?thesis
          by (subst ct_inner.simps) (simp add: upt put_member_used accepts_def Let_def)
      qed
    next
      case rej: False
      then have nz: "buckets st ! j \<noteq> 0"
        and nb: "\<not> (buckets st ! j - (buckets st ! j div 4 + buckets st ! j div 8) < timings ! i \<and>
                   timings ! i < buckets st ! j + (buckets st ! j div 4 + buckets st ! j div 8))"
        by (auto simp: accepts_def)
      have ih: "ct_inner i (j + 1) st timings =
        (case find (\<lambda>k. accepts (buckets st ! k) (timings ! i)) [j + 1..<8] of
           None \<Rightarrow> (8, st, timings)
         | Some k \<Rightarrow> (k, put_member k (timings ! i) st, timings[i := of_nat k]))"
        using "1.IH" [OF True refl refl nz refl nb] True by simp
      have "ct_inner i j st timings = ct_inner i (j + 1) st timings"
        using True nz nb by (subst ct_inner.simps) (auto simp: Let_def)
      with ih rej show ?thesis by (simp add: upt)
    qed
  qed
qed

lemma first_fit_lt: "first_fit b v = Some j \<Longrightarrow> j < 8"
  by (auto simp: first_fit_def find_Some_iff)

lemma ct_outer_pass:
  "i \<le> length timings \<Longrightarrow>
   ct_outer (length timings) i st timings =
     (case first_fit_pass (drop i timings) st of
        (ok, st', labels) \<Rightarrow> (ok, st', take i timings @ labels))"
proof (induction "length timings" i st timings rule: ct_outer.induct)
  case (1 i st timings)
  show ?case
  proof (cases "i < length timings")
    case False
    with "1.prems" have "i = length timings" by simp
    then show ?thesis by (subst ct_outer.simps) simp
  next
    case True
    then have dr: "drop i timings = timings ! i # drop (Suc i) timings"
      by (simp add: Cons_nth_drop_Suc)
    have inner: "ct_inner i 0 st timings =
      (case first_fit (buckets st) (timings ! i) of
         None \<Rightarrow> (8, st, timings)
       | Some k \<Rightarrow> (k, put_member k (timings ! i) st, timings[i := of_nat k]))"
      by (simp add: ct_inner_find first_fit_def)
    show ?thesis
    proof (cases "first_fit (buckets st) (timings ! i)")
      case None
      have whole: "take i timings @ timings ! i # drop (Suc i) timings = timings"
        using True by (simp add: id_take_nth_drop [symmetric])
      from None inner True show ?thesis
        by (subst ct_outer.simps) (simp add: dr whole)
    next
      case (Some k)
      then have k: "k < 8" by (rule first_fit_lt)
      let ?st = "put_member k (timings ! i) st" and ?t = "timings[i := of_nat k]"
      have r: "ct_inner i 0 st timings = (k, ?st, ?t)" using inner Some by simp
      have "ct_outer (length ?t) (i + 1) ?st ?t =
        (case first_fit_pass (drop (i + 1) ?t) ?st of
           (ok, st', labels) \<Rightarrow> (ok, st', take (i + 1) ?t @ labels))"
      proof (rule "1.hyps"(1) [OF True r [symmetric] refl])
        show "k \<noteq> 8" using k by simp
        show "length timings = length ?t" by simp
        show "i + 1 \<le> length ?t" using True by simp
      qed
      moreover have "drop (i + 1) ?t = drop (Suc i) timings" by simp
      moreover have "take (i + 1) ?t = take i timings @ [of_nat k]"
        using True by (simp add: take_Suc_conv_app_nth)
      ultimately have
        "ct_outer (length timings) (i + 1) ?st ?t =
           (case first_fit_pass (drop (Suc i) timings) ?st of
              (ok, st', labels) \<Rightarrow> (ok, st', take i timings @ of_nat k # labels))"
        by simp
      with r k True Some show ?thesis
        by (subst ct_outer.simps) (simp add: dr split: prod.splits)
    qed
  qed
qed

text \<open>
  C2, as amended. For every input sequence \<open>compressTimings\<close> puts each duration into
  the first slot, in index order, that is empty (bucket value 0) or whose reference
  value \<open>r\<close>, the first duration put into that slot, has
  \<open>r - (r/4 + r/8) < duration < r + (r/4 + r/8)\<close> in 16-bit unsigned arithmetic; it adds
  the duration to the slot's sum and count and writes the slot index over the duration;
  it returns false exactly when a duration finds no such slot among the eight, the
  durations before it being relabelled already; the means are stored once, after the
  last duration. The loops of the source compute what \<open>compressTimings_first_fit\<close>
  states.
\<close>

theorem compressTimings_is_first_fit:
  "compressTimings timings = compressTimings_first_fit timings"
  using ct_outer_pass [of 0 timings init_buckets]
  by (simp add: compressTimings_def compressTimings_first_fit_def split: prod.splits bool.splits)


lemma mean_pass_code:
  "ct_outer (length [100, 130, 140 :: uint]) 0 init_buckets [100, 130, 140] =
     (True, \<lparr>buckets = [100, 140, 0, 0, 0, 0, 0, 0],
             sums = [230, 140, 0, 0, 0, 0, 0, 0],
             counts = [2, 1, 0, 0, 0, 0, 0, 0]\<rparr>, [0, 0, 1])"
  by (simp add: init_buckets_def ct_outer.simps ct_inner.simps)

lemma mean_average_code:
  "buckets (average_buckets \<lparr>buckets = [100, 140, 0, 0, 0, 0, 0, 0],
             sums = [230, 140, 0, 0, 0, 0, 0, 0],
             counts = [2, 1, 0, 0, 0, 0, 0, 0]\<rparr>) = [115, 140, 0, 0, 0, 0, 0, 0]"
  by (simp add: average_buckets_def average_step_def upt_0_8)

lemma mean_code:
  "compressTimings [100, 130, 140] = (True, [115, 140, 0, 0, 0, 0, 0, 0], [0, 0, 1])"
  unfolding compressTimings_def mean_pass_code
  by (simp only: prod.case bool.case mean_average_code)

lemma mean_spec_1:
  "spec_assign 100 init_buckets =
     Some (0, \<lparr>buckets = [100, 0, 0, 0, 0, 0, 0, 0], sums = [100, 0, 0, 0, 0, 0, 0, 0],
               counts = [1, 0, 0, 0, 0, 0, 0, 0]\<rparr>)"
  by (simp add: spec_assign_def init_buckets_def upt_0_8 in_band_def add_member_def)

lemma mean_spec_2:
  "spec_assign 130 \<lparr>buckets = [100, 0, 0, 0, 0, 0, 0, 0], sums = [100, 0, 0, 0, 0, 0, 0, 0],
               counts = [1, 0, 0, 0, 0, 0, 0, 0]\<rparr> =
     Some (0, \<lparr>buckets = [115, 0, 0, 0, 0, 0, 0, 0], sums = [230, 0, 0, 0, 0, 0, 0, 0],
               counts = [2, 0, 0, 0, 0, 0, 0, 0]\<rparr>)"
  by (simp add: spec_assign_def upt_0_8 in_band_def add_member_def)

lemma mean_spec_3:
  "spec_assign 140 \<lparr>buckets = [115, 0, 0, 0, 0, 0, 0, 0], sums = [230, 0, 0, 0, 0, 0, 0, 0],
               counts = [2, 0, 0, 0, 0, 0, 0, 0]\<rparr> =
     Some (0, \<lparr>buckets = [123, 0, 0, 0, 0, 0, 0, 0], sums = [370, 0, 0, 0, 0, 0, 0, 0],
               counts = [3, 0, 0, 0, 0, 0, 0, 0]\<rparr>)"
  by (simp add: spec_assign_def upt_0_8 in_band_def add_member_def)

lemma mean_spec:
  "compressTimings_spec [100, 130, 140] = (True, [123, 0, 0, 0, 0, 0, 0, 0], [0, 0, 0])"
  by (simp add: compressTimings_spec_def mean_spec_1 mean_spec_2 mean_spec_3)

text \<open>
  C2 as stated fails. On the durations 100, 130, 140 the running mean of class 0 after
  two members is 115 and its band is 73 to 157, so the classifier of the specification
  puts 140 into class 0. The code compares 140 with the band 63 < v < 137 of the first
  member 100 and opens class 1.
\<close>

theorem running_mean_counterexample:
  "compressTimings [100, 130, 140] = (True, [115, 140, 0, 0, 0, 0, 0, 0], [0, 0, 1]) \<and>
   compressTimings_spec [100, 130, 140] = (True, [123, 0, 0, 0, 0, 0, 0, 0], [0, 0, 0])"
  by (simp only: mean_code mean_spec)

theorem compressTimings_is_first_fit_witness:
  "compressTimings_first_fit [100, 130, 140] = (True, [115, 140, 0, 0, 0, 0, 0, 0], [0, 0, 1])"
  using compressTimings_is_first_fit [of "[100, 130, 140]"] by (simp only: mean_code)


section \<open>getRaw unwinds the pending message\<close>

lemma byte_of_nat_unat: "k < 256 \<Longrightarrow> unat (of_nat k :: byte) = k"
  by (simp add: unat_of_nat)

lemma uint_of_nat_unat: "k < 65536 \<Longrightarrow> unat (of_nat k :: uint) = k"
  by (simp add: unat_of_nat)

lemma ring_step_neq:
  fixes rd wr :: byte
  assumes "j < unat (wr - rd)"
  shows "rd + of_nat j \<noteq> wr"
proof
  assume "rd + of_nat j = wr"
  then have "wr - rd = of_nat j" by auto
  moreover have "j < 256" using assms unsigned_less [of "wr - rd", where 'a = nat] by simp
  ultimately have "unat (wr - rd) = j" by (simp add: unat_of_nat)
  with assms show False by simp
qed

lemma ring_step_eq:
  fixes rd wr :: byte
  shows "rd + of_nat (unat (wr - rd)) = wr"
  by simp

lemma byte_lt_256: "unat (x :: byte) < 256"
  using unsigned_less [of x, where 'a = nat] by simp

lemma unat_ucast_byte: "unat (ucast (rd :: byte) :: uint) = unat rd"
proof -
  have "unat rd < 2 ^ 16" using byte_lt_256 [of rd] by simp
  then show ?thesis by (simp add: unsigned_ucast_eq take_bit_nat_eq_self)
qed

lemma flat_index:
  fixes rd :: byte
  assumes "k < 256"
  shows "unat (ucast rd + of_nat k :: uint) = unat rd + k"
proof -
  have "unat rd < 256" using unsigned_less [of rd, where 'a = nat] by simp
  then have "unat (ucast rd :: uint) + unat (of_nat k :: uint) < 2 ^ 16"
    using assms by (simp add: unat_of_nat unat_ucast_byte)
  then have "unat (ucast rd + of_nat k :: uint) = unat (ucast rd :: uint) + unat (of_nat k :: uint)"
    by (simp add: unat_add_lem [THEN iffD1])
  then show ?thesis using assms by (simp add: unat_of_nat unat_ucast_byte)
qed

lemma ring_index_apart:
  fixes rd :: byte
  assumes "i \<le> k" and "k + 1 < 256"
  shows "unat (rd + of_nat (k + 1)) \<noteq> unat rd + i"
proof -
  have r: "unat rd < 256" using unsigned_less [of rd, where 'a = nat] by simp
  have "unat (rd + of_nat (k + 1)) = (unat rd + (k + 1)) mod 256"
    using assms by (simp add: unat_word_ariths unat_of_nat)
  also have "\<dots> \<noteq> unat rd + i"
  proof (cases "unat rd + (k + 1) < 256")
    case True
    with assms show ?thesis by simp
  next
    case False
    then have "(unat rd + (k + 1)) mod 256 = unat rd + (k + 1) - 256"
      using r assms by (simp add: mod_if)
    with r assms False show ?thesis by simp
  qed
  finally show ?thesis .
qed

lemma uint_less_of_nat:
  fixes ms :: uint
  assumes "k < 65536"
  shows "of_nat k < ms \<longleftrightarrow> k < unat ms"
  using assms by (simp add: word_less_nat_alt unat_of_nat)


lemma length_filled: "length (filled rd pt buf k) = length buf"
  by (induction k) simp_all

lemma filled_outside:
  "q < unat rd \<or> unat rd + k \<le> q \<Longrightarrow> filled rd pt buf k ! q = buf ! q"
  by (induction k) auto

lemma filled_inside:
  "i < k \<Longrightarrow> unat rd + i < length buf \<Longrightarrow>
   filled rd pt buf k ! (unat rd + i) = pt * buf ! unat (rd + of_nat (Suc i))"
proof (induction k)
  case 0
  then show ?case by simp
next
  case (Suc k)
  show ?case
  proof (cases "i = k")
    case True
    with Suc.prems show ?thesis by (simp add: length_filled)
  next
    case False
    with Suc show ?thesis by simp
  qed
qed

lemma filled_ring_read:
  assumes "k + 1 < 256"
  shows "filled rd pt buf k ! unat (rd + of_nat (k + 1)) = buf ! unat (rd + of_nat (k + 1))"
proof (rule filled_outside)
  have r: "unat rd < 256" by (rule byte_lt_256)
  have u: "unat (rd + of_nat (k + 1)) = (unat rd + (k + 1)) mod 256"
    using assms by (simp add: unat_word_ariths unat_of_nat)
  show "unat (rd + of_nat (k + 1)) < unat rd \<or> unat rd + k \<le> unat (rd + of_nat (k + 1))"
  proof (cases "unat rd + (k + 1) < 256")
    case True
    with u show ?thesis by simp
  next
    case False
    then have "(unat rd + (k + 1)) mod 256 = unat rd + (k + 1) - 256"
      using r assms by (simp add: mod_if)
    with u have "unat (rd + of_nat (k + 1)) = unat rd + (k + 1) - 256" by simp
    with r assms False have "unat (rd + of_nat (k + 1)) < unat rd" by arith
    then show ?thesis ..
  qed
qed

lemma length_pending: "length (pending_slots s) = unat (writer s - reader s) - 1"
  by (simp add: pending_slots_def)

lemma nth_pending:
  "i < length (pending_slots s) \<Longrightarrow> pending_slots s ! i = reader s + of_nat (i + 1)"
  by (simp add: pending_slots_def)

lemma length_pending_lt: "length (pending_slots s) < 255"
  using byte_lt_256 [of "writer s - reader s"] by (simp add: length_pending)

lemma length_run_le: "length (data_run s) \<le> length (pending_slots s)"
  by (simp add: data_run_def length_takeWhile_le)

lemma run_member:
  assumes "k < length (data_run s)"
  shows "msgbuf s ! unat (reader s + of_nat (k + 1)) \<le> MAX_PULSE_PERIODS"
proof -
  from assms have "k < length (pending_slots s)" using length_run_le [of s] by simp
  then have p: "pending_slots s ! k = reader s + of_nat (k + 1)" by (rule nth_pending)
  from assms have "data_run s ! k \<in> set (data_run s)" by simp
  then have "msgbuf s ! unat (data_run s ! k) \<le> MAX_PULSE_PERIODS"
    unfolding data_run_def by (rule set_takeWhileD [THEN conjunct2])
  moreover have "data_run s ! k = pending_slots s ! k"
    using assms unfolding data_run_def by (rule takeWhile_nth)
  ultimately show ?thesis using p by simp
qed

lemma run_end:
  assumes "length (data_run s) < length (pending_slots s)"
  shows "\<not> msgbuf s ! unat (reader s + of_nat (length (data_run s) + 1)) \<le> MAX_PULSE_PERIODS"
proof -
  have "\<not> msgbuf s ! unat (pending_slots s ! length (data_run s)) \<le> MAX_PULSE_PERIODS"
    using assms unfolding data_run_def by (rule nth_length_takeWhile)
  with nth_pending [OF assms] show ?thesis by simp
qed


lemma pending_pos: "reader s \<noteq> writer s \<Longrightarrow> length (pending_slots s) + 1 = unat (writer s - reader s)"
proof -
  assume "reader s \<noteq> writer s"
  then have "writer s - reader s \<noteq> 0" by auto
  then have "0 < unat (writer s - reader s)" by (simp add: unat_gt_0)
  then show ?thesis by (simp add: length_pending)
qed

lemma getRaw_loop_stop:
  assumes ne: "reader s \<noteq> writer s"
    and m: "m = min (length (data_run s)) (unat ms)"
  shows "getRaw_loop (reader s) (writer s) pt (ucast (reader s)) ms (of_nat (m + 1)) (of_nat m)
           (filled (reader s) pt (msgbuf s) m) =
         (of_nat (m + 1), of_nat m, filled (reader s) pt (msgbuf s) m)"
proof -
  have bound: "length (data_run s) < 255"
    using length_run_le [of s] length_pending_lt [of s] by simp
  have stop: "\<not> (reader s + of_nat (m + 1) \<noteq> writer s \<and>
                filled (reader s) pt (msgbuf s) m ! unat (reader s + of_nat (m + 1))
                  \<le> MAX_PULSE_PERIODS \<and>
                (of_nat m :: uint) < ms)"
  proof (cases "unat ms \<le> length (data_run s)")
    case True
    with m have "m = unat ms" by simp
    then have "(of_nat m :: uint) = ms" by simp
    then show ?thesis by simp
  next
    case False
    with m have mn: "m = length (data_run s)" by simp
    show ?thesis
    proof (cases "length (data_run s) < length (pending_slots s)")
      case True
      have "filled (reader s) pt (msgbuf s) m ! unat (reader s + of_nat (m + 1)) =
            msgbuf s ! unat (reader s + of_nat (m + 1))"
        using bound mn by (intro filled_ring_read) simp
      with run_end [OF True] mn show ?thesis by simp
    next
      case False
      with length_run_le [of s] have "length (data_run s) = length (pending_slots s)" by simp
      with pending_pos [OF ne] mn have "m + 1 = unat (writer s - reader s)" by simp
      then have "reader s + of_nat (m + 1) = writer s" by (simp only: ring_step_eq)
      then show ?thesis by simp
    qed
  qed
  show ?thesis by (subst getRaw_loop.simps) (simp only: stop if_False)
qed

lemma getRaw_loop_run:
  assumes ne: "reader s \<noteq> writer s"
    and m: "m = min (length (data_run s)) (unat ms)"
    and k: "k \<le> m"
  shows "getRaw_loop (reader s) (writer s) pt (ucast (reader s)) ms (of_nat (k + 1)) (of_nat k)
           (filled (reader s) pt (msgbuf s) k) =
         (of_nat (m + 1), of_nat m, filled (reader s) pt (msgbuf s) m)"
  using k
proof (induction "m - k" arbitrary: k)
  case 0
  then have "k = m" by simp
  then show ?case using getRaw_loop_stop [OF ne m] by simp
next
  case (Suc d)
  then have km: "k < m" by simp
  have bound: "length (data_run s) < 255"
    using length_run_le [of s] length_pending_lt [of s] by simp
  from km m have kn: "k < length (data_run s)" and kms: "k < unat ms" by simp_all
  from kn bound have k255: "k + 1 < 256" by simp
  have c1: "reader s + of_nat (k + 1) \<noteq> writer s"
  proof (rule ring_step_neq)
    show "k + 1 < unat (writer s - reader s)"
      using kn length_run_le [of s] pending_pos [OF ne] by simp
  qed
  have rd: "filled (reader s) pt (msgbuf s) k ! unat (reader s + of_nat (k + 1)) =
            msgbuf s ! unat (reader s + of_nat (k + 1))"
    using k255 by (rule filled_ring_read)
  have c2: "filled (reader s) pt (msgbuf s) k ! unat (reader s + of_nat (k + 1))
              \<le> MAX_PULSE_PERIODS"
    using run_member [OF kn] rd by simp
  have c3: "(of_nat k :: uint) < ms"
    using kms k255 by (simp add: uint_less_of_nat)
  have idx: "unat (ucast (reader s) + of_nat k :: uint) = unat (reader s) + k"
    using k255 by (intro flat_index) simp
  have nxt: "(filled (reader s) pt (msgbuf s) k)
               [unat (ucast (reader s) + of_nat k :: uint) :=
                  pt * filled (reader s) pt (msgbuf s) k ! unat (reader s + of_nat (k + 1))] =
             filled (reader s) pt (msgbuf s) (Suc k)"
    using rd idx by simp
  have ih: "getRaw_loop (reader s) (writer s) pt (ucast (reader s)) ms (of_nat (Suc k + 1))
              (of_nat (Suc k)) (filled (reader s) pt (msgbuf s) (Suc k)) =
            (of_nat (m + 1), of_nat m, filled (reader s) pt (msgbuf s) m)"
    using Suc.hyps(1) [of "Suc k"] Suc.hyps(2) km by simp
  have p1: "(of_nat (k + 1) :: byte) + 1 = of_nat (Suc k + 1)" by simp
  have s1: "(of_nat k :: uint) + 1 = of_nat (Suc k)" by simp
  have "getRaw_loop (reader s) (writer s) pt (ucast (reader s)) ms (of_nat (k + 1)) (of_nat k)
          (filled (reader s) pt (msgbuf s) k) =
        getRaw_loop (reader s) (writer s) pt (ucast (reader s)) ms (of_nat (k + 1) + 1)
          (of_nat k + 1)
          ((filled (reader s) pt (msgbuf s) k)
             [unat (ucast (reader s) + of_nat k :: uint) :=
                pt * filled (reader s) pt (msgbuf s) k ! unat (reader s + of_nat (k + 1))])"
    by (subst getRaw_loop.simps) (simp only: c1 c2 c3 simp_thms if_True)
  also have "\<dots> = (of_nat (m + 1), of_nat m, filled (reader s) pt (msgbuf s) m)"
    by (simp only: nxt p1 s1 ih)
  finally show ?case .
qed


lemma exposed_filled:
  assumes "k \<le> length (pending_slots s)" and "unat (reader s) + k \<le> length (msgbuf s)"
  shows "take k (drop (unat (reader s)) (filled (reader s) pt (msgbuf s) k)) =
         map (\<lambda>p. pt * msgbuf s ! unat p) (take k (pending_slots s))"
proof (rule nth_equalityI)
  show "length (take k (drop (unat (reader s)) (filled (reader s) pt (msgbuf s) k))) =
        length (map (\<lambda>p. pt * msgbuf s ! unat p) (take k (pending_slots s)))"
    using assms by (simp add: length_filled)
next
  fix i
  assume "i < length (take k (drop (unat (reader s)) (filled (reader s) pt (msgbuf s) k)))"
  then have i: "i < k" by simp
  with assms have il: "unat (reader s) + i < length (msgbuf s)" by simp
  have "take k (drop (unat (reader s)) (filled (reader s) pt (msgbuf s) k)) ! i =
        filled (reader s) pt (msgbuf s) k ! (unat (reader s) + i)"
    using i il by (simp add: length_filled)
  also have "\<dots> = pt * msgbuf s ! unat (reader s + of_nat (Suc i))"
    using i il by (rule filled_inside)
  also have "\<dots> = map (\<lambda>p. pt * msgbuf s ! unat p) (take k (pending_slots s)) ! i"
    using i assms(1) by (simp add: nth_pending)
  finally show "take k (drop (unat (reader s)) (filled (reader s) pt (msgbuf s) k)) ! i =
                map (\<lambda>p. pt * msgbuf s ! unat p) (take k (pending_slots s)) ! i" .
qed

lemma flat_space:
  assumes "256 \<le> unat MAX_RECORDINGS"
  shows "unat (MAX_RECORDINGS - ucast (rd :: byte) :: uint) = unat MAX_RECORDINGS - unat rd"
proof -
  have "unat (ucast rd :: uint) \<le> unat MAX_RECORDINGS"
    using assms byte_lt_256 [of rd] by (simp add: unat_ucast_byte)
  then have "(ucast rd :: uint) \<le> MAX_RECORDINGS" by (simp add: word_le_nat_alt)
  then show ?thesis by (simp add: unat_sub unat_ucast_byte)
qed

lemma getRaw_empty: "reader s = writer s \<Longrightarrow> getRaw MAX_RECORDINGS s = ((unat (reader s), 0), s)"
  by (simp add: getRaw_def unat_ucast_byte)

lemma getRaw_loop_result:
  assumes "reader s \<noteq> writer s"
  shows "getRaw_loop (reader s) (writer s) pt (ucast (reader s)) ms 1 0 (msgbuf s) =
         (of_nat (min (length (data_run s)) (unat ms) + 1),
          of_nat (min (length (data_run s)) (unat ms)),
          filled (reader s) pt (msgbuf s) (min (length (data_run s)) (unat ms)))"
  using getRaw_loop_run [OF assms refl, of 0 ms pt] by simp

lemma getRaw_dropped:
  assumes ne: "reader s \<noteq> writer s" and big: "256 \<le> unat MAX_RECORDINGS"
    and full: "unat MAX_RECORDINGS - unat (reader s) \<le> length (data_run s)"
  shows "snd (fst (getRaw MAX_RECORDINGS s)) = 0 \<and> reader (snd (getRaw MAX_RECORDINGS s)) = reader s"
proof -
  let ?ms = "MAX_RECORDINGS - ucast (reader s)"
  have ms: "unat ?ms = unat MAX_RECORDINGS - unat (reader s)" using big by (rule flat_space)
  with full have m: "min (length (data_run s)) (unat ?ms) = unat ?ms" by simp
  have "?ms \<le> of_nat (unat ?ms)" by simp
  then show ?thesis
    using ne by (simp add: getRaw_def Let_def getRaw_loop_result m)
qed


lemma run_bound: "length (data_run s) < 255"
  using length_run_le [of s] length_pending_lt [of s] by simp

lemma getRaw_with_extra:
  assumes ne: "reader s \<noteq> writer s" and big: "256 \<le> unat MAX_RECORDINGS"
    and short: "length (data_run s) < unat MAX_RECORDINGS - unat (reader s)"
    and test: "unat (reader s) + (length (data_run s) + 1) \<noteq> unat (writer s)"
  shows "getRaw MAX_RECORDINGS s =
           ((unat (reader s), of_nat (length (data_run s) + 1)),
            s\<lparr>msgbuf := filled (reader s) (msgbuf s ! unat (reader s)) (msgbuf s)
                          (Suc (length (data_run s)))\<rparr>)"
proof -
  let ?ms = "MAX_RECORDINGS - ucast (reader s)"
  let ?n = "length (data_run s)"
  let ?pt = "msgbuf s ! unat (reader s)"
  have ms: "unat ?ms = unat MAX_RECORDINGS - unat (reader s)" using big by (rule flat_space)
  with short have m: "min ?n (unat ?ms) = ?n" by simp
  have n255: "?n + 1 < 256" using run_bound [of s] by simp
  have lt: "(of_nat ?n :: uint) < ?ms"
    using short ms n255 by (simp add: uint_less_of_nat)
  then have nge: "\<not> ?ms \<le> of_nat ?n" by simp
  have pos: "unat (of_nat (?n + 1) :: byte) = ?n + 1"
    using n255 by (simp only: byte_of_nat_unat)
  have test': "unat (reader s) + unat (of_nat (?n + 1) :: byte) \<noteq> unat (writer s)"
    unfolding pos using test .
  have rd: "filled (reader s) ?pt (msgbuf s) ?n ! unat (reader s + of_nat (?n + 1)) =
            msgbuf s ! unat (reader s + of_nat (?n + 1))"
    using n255 by (rule filled_ring_read)
  have idx: "unat (ucast (reader s) + of_nat ?n :: uint) = unat (reader s) + ?n"
    using n255 by (intro flat_index) simp
  have nxt: "(filled (reader s) ?pt (msgbuf s) ?n)
               [unat (ucast (reader s) + of_nat ?n :: uint) :=
                  ?pt * filled (reader s) ?pt (msgbuf s) ?n ! unat (reader s + of_nat (?n + 1))] =
             filled (reader s) ?pt (msgbuf s) (Suc ?n)"
    using rd idx by simp
  have sz: "(of_nat ?n :: uint) + 1 = of_nat (?n + 1)" by simp
  have "getRaw MAX_RECORDINGS s =
          ((unat (ucast (reader s) :: uint), of_nat ?n + 1),
           s\<lparr>msgbuf := (filled (reader s) ?pt (msgbuf s) ?n)
               [unat (ucast (reader s) + of_nat ?n :: uint) :=
                  ?pt * filled (reader s) ?pt (msgbuf s) ?n ! unat (reader s + of_nat (?n + 1))]\<rparr>)"
    unfolding getRaw_def Let_def getRaw_loop_result [OF ne] m
    using ne nge test' by (simp only: if_True if_False prod.case simp_thms)
  then show ?thesis by (simp only: nxt sz unat_ucast_byte)
qed

lemma getRaw_with_trailing:
  assumes ne: "reader s \<noteq> writer s" and big: "256 \<le> unat MAX_RECORDINGS"
    and short: "length (data_run s) < unat MAX_RECORDINGS - unat (reader s)"
    and more: "length (data_run s) < length (pending_slots s)"
  shows "getRaw MAX_RECORDINGS s =
           ((unat (reader s), of_nat (length (data_run s) + 1)),
            s\<lparr>msgbuf := filled (reader s) (msgbuf s ! unat (reader s)) (msgbuf s)
                          (Suc (length (data_run s)))\<rparr>)"
proof -
  let ?n = "length (data_run s)"
  have n255: "?n + 1 < 256" using run_bound [of s] by simp
  have "reader s + of_nat (?n + 1) \<noteq> writer s"
  proof (rule ring_step_neq)
    show "?n + 1 < unat (writer s - reader s)" using more pending_pos [OF ne] by simp
  qed
  then have apart: "unat (reader s + of_nat (?n + 1)) \<noteq> unat (writer s)"
    by (simp add: word_unat_eq_iff)
  have test: "unat (reader s) + (?n + 1) \<noteq> unat (writer s)"
  proof
    assume e: "unat (reader s) + (?n + 1) = unat (writer s)"
    have "unat (reader s + of_nat (?n + 1)) = (unat (reader s) + (?n + 1)) mod 256"
      using n255 by (simp add: unat_word_ariths unat_of_nat)
    with e byte_lt_256 [of "writer s"] have "unat (reader s + of_nat (?n + 1)) = unat (writer s)"
      by simp
    with apart show False by simp
  qed
  show ?thesis by (rule getRaw_with_extra [OF ne big short test])
qed

lemma getRaw_without_trailing:
  assumes ne: "reader s \<noteq> writer s" and big: "256 \<le> unat MAX_RECORDINGS"
    and short: "length (data_run s) < unat MAX_RECORDINGS - unat (reader s)"
    and all: "length (data_run s) = length (pending_slots s)"
    and flat: "reader s \<le> writer s"
  shows "getRaw MAX_RECORDINGS s =
           ((unat (reader s), of_nat (length (data_run s))),
            s\<lparr>msgbuf := filled (reader s) (msgbuf s ! unat (reader s)) (msgbuf s)
                          (length (data_run s))\<rparr>)"
proof -
  let ?ms = "MAX_RECORDINGS - ucast (reader s)"
  let ?n = "length (data_run s)"
  let ?pt = "msgbuf s ! unat (reader s)"
  have ms: "unat ?ms = unat MAX_RECORDINGS - unat (reader s)" using big by (rule flat_space)
  with short have m: "min ?n (unat ?ms) = ?n" by simp
  have n255: "?n + 1 < 256" using run_bound [of s] by simp
  have lt: "(of_nat ?n :: uint) < ?ms"
    using short ms n255 by (simp add: uint_less_of_nat)
  then have nge: "\<not> ?ms \<le> of_nat ?n" by simp
  have pos: "unat (of_nat (?n + 1) :: byte) = ?n + 1"
    using n255 by (simp only: byte_of_nat_unat)
  have "?n + 1 = unat (writer s - reader s)" using all pending_pos [OF ne] by simp
  also have "\<dots> = unat (writer s) - unat (reader s)" using flat by (simp add: unat_sub)
  finally have "unat (reader s) + (?n + 1) = unat (writer s)"
    using flat by (simp add: word_le_nat_alt)
  then have test: "\<not> unat (reader s) + unat (of_nat (?n + 1) :: byte) \<noteq> unat (writer s)"
    unfolding pos by simp
  have "getRaw MAX_RECORDINGS s =
          ((unat (ucast (reader s) :: uint), of_nat ?n),
           s\<lparr>msgbuf := filled (reader s) ?pt (msgbuf s) ?n\<rparr>)"
    unfolding getRaw_def Let_def getRaw_loop_result [OF ne] m
    using ne nge test by (simp only: if_True if_False prod.case simp_thms)
  then show ?thesis by (simp only: unat_ucast_byte)
qed


lemma length_unwound:
  "length (unwound s) = min (length (data_run s) + 1) (length (pending_slots s))"
  by (simp add: unwound_def)

lemma uint_of_nat_zero:
  assumes "k < 65536"
  shows "(of_nat k :: uint) = 0 \<longleftrightarrow> k = 0"
proof
  assume "(of_nat k :: uint) = 0"
  then have "unat (of_nat k :: uint) = 0" by simp
  with uint_of_nat_unat [OF assms] show "k = 0" by simp
next
  assume "k = 0"
  then show "(of_nat k :: uint) = 0" by simp
qed

lemma getRaw_unwinds_trailing:
  assumes big: "256 \<le> unat MAX_RECORDINGS"
    and len: "length (msgbuf s) = unat MAX_RECORDINGS"
    and ne: "reader s \<noteq> writer s"
    and short: "length (data_run s) < unat MAX_RECORDINGS - unat (reader s)"
    and more: "length (data_run s) < length (pending_slots s)"
  shows "snd (fst (getRaw MAX_RECORDINGS s)) \<noteq> 0 \<and> unwound s \<noteq> [] \<and>
         reader (snd (getRaw MAX_RECORDINGS s)) = reader s \<and>
         fst (fst (getRaw MAX_RECORDINGS s)) = unat (reader s) \<and>
         exposed (getRaw MAX_RECORDINGS s) = unwound s"
proof -
  let ?n = "length (data_run s)"
  let ?pt = "msgbuf s ! unat (reader s)"
  have n: "?n + 1 < 65536" using run_bound [of s] by simp
  note r = getRaw_with_trailing [OF ne big short more]
  have "((of_nat (?n + 1) :: uint) = 0) = (?n + 1 = 0)" using n by (rule uint_of_nat_zero)
  then have nz: "(of_nat (?n + 1) :: uint) \<noteq> 0" by simp
  have un: "unat (of_nat (?n + 1) :: uint) = ?n + 1" using n by (rule uint_of_nat_unat)
  have "length (unwound s) = ?n + 1" using more by (simp add: length_unwound)
  then have u: "unwound s \<noteq> []" by auto
  have mb: "msgbuf (s\<lparr>msgbuf := filled (reader s) ?pt (msgbuf s) (Suc ?n)\<rparr>) =
            filled (reader s) ?pt (msgbuf s) (Suc ?n)" by simp
  have "exposed (getRaw MAX_RECORDINGS s) =
        take (unat (of_nat (?n + 1) :: uint))
          (drop (unat (reader s)) (filled (reader s) ?pt (msgbuf s) (Suc ?n)))"
    unfolding r exposed_def by (simp only: prod.case mb)
  also have "\<dots> =
        take (?n + 1) (drop (unat (reader s)) (filled (reader s) ?pt (msgbuf s) (?n + 1)))"
    by (simp only: un Suc_eq_plus1)
  also have "\<dots> = map (\<lambda>p. ?pt * msgbuf s ! unat p) (take (?n + 1) (pending_slots s))"
    using short more len by (intro exposed_filled) simp_all
  finally have e: "exposed (getRaw MAX_RECORDINGS s) = unwound s" by (simp add: unwound_def)
  from nz u e show ?thesis unfolding r by simp
qed

lemma getRaw_unwinds_bare:
  assumes big: "256 \<le> unat MAX_RECORDINGS"
    and len: "length (msgbuf s) = unat MAX_RECORDINGS"
    and ne: "reader s \<noteq> writer s"
    and short: "length (data_run s) < unat MAX_RECORDINGS - unat (reader s)"
    and all: "length (data_run s) = length (pending_slots s)"
    and flat: "reader s \<le> writer s"
  shows "(snd (fst (getRaw MAX_RECORDINGS s)) = 0 \<longleftrightarrow> unwound s = []) \<and>
         reader (snd (getRaw MAX_RECORDINGS s)) = reader s \<and>
         fst (fst (getRaw MAX_RECORDINGS s)) = unat (reader s) \<and>
         exposed (getRaw MAX_RECORDINGS s) = unwound s"
proof -
  let ?n = "length (data_run s)"
  let ?pt = "msgbuf s ! unat (reader s)"
  have n: "?n < 65536" using run_bound [of s] by simp
  note r = getRaw_without_trailing [OF ne big short all flat]
  have lu: "length (unwound s) = ?n" using all by (simp add: length_unwound)
  have "((of_nat ?n :: uint) = 0) = (?n = 0)" using n by (rule uint_of_nat_zero)
  moreover have "(unwound s = []) = (?n = 0)" using lu by (metis length_0_conv)
  ultimately have z: "(of_nat ?n :: uint) = 0 \<longleftrightarrow> unwound s = []" by simp
  have un: "unat (of_nat ?n :: uint) = ?n" using n by (rule uint_of_nat_unat)
  have "exposed (getRaw MAX_RECORDINGS s) =
        take ?n (drop (unat (reader s)) (filled (reader s) ?pt (msgbuf s) ?n))"
    unfolding r exposed_def by (simp add: un)
  also have "\<dots> = map (\<lambda>p. ?pt * msgbuf s ! unat p) (take ?n (pending_slots s))"
    using short all len by (intro exposed_filled) simp_all
  finally have e: "exposed (getRaw MAX_RECORDINGS s) = unwound s"
    using all by (simp add: unwound_def)
  from z e show ?thesis unfolding r by simp
qed

lemma exposed_filled_prefix:
  assumes "k \<le> length (pending_slots s)" and "k \<le> j"
    and "unat (reader s) + j \<le> length (msgbuf s)"
  shows "take k (drop (unat (reader s)) (filled (reader s) pt (msgbuf s) j)) =
         map (\<lambda>p. pt * msgbuf s ! unat p) (take k (pending_slots s))"
proof (rule nth_equalityI)
  show "length (take k (drop (unat (reader s)) (filled (reader s) pt (msgbuf s) j))) =
        length (map (\<lambda>p. pt * msgbuf s ! unat p) (take k (pending_slots s)))"
    using assms by (simp add: length_filled)
next
  fix i
  assume "i < length (take k (drop (unat (reader s)) (filled (reader s) pt (msgbuf s) j)))"
  then have i: "i < k" by simp
  with assms have ij: "i < j" and il: "unat (reader s) + i < length (msgbuf s)" by simp_all
  have "take k (drop (unat (reader s)) (filled (reader s) pt (msgbuf s) j)) ! i =
        filled (reader s) pt (msgbuf s) j ! (unat (reader s) + i)"
    using i il by (simp add: length_filled)
  also have "\<dots> = pt * msgbuf s ! unat (reader s + of_nat (Suc i))"
    using ij il by (rule filled_inside)
  also have "\<dots> = map (\<lambda>p. pt * msgbuf s ! unat p) (take k (pending_slots s)) ! i"
    using i assms(1) by (simp add: nth_pending)
  finally show "take k (drop (unat (reader s)) (filled (reader s) pt (msgbuf s) j)) ! i =
                map (\<lambda>p. pt * msgbuf s ! unat p) (take k (pending_slots s)) ! i" .
qed

lemma getRaw_unwinds_past_writer:
  assumes big: "256 \<le> unat MAX_RECORDINGS"
    and len: "length (msgbuf s) = unat MAX_RECORDINGS"
    and short: "length (data_run s) < unat MAX_RECORDINGS - unat (reader s)"
    and all: "length (data_run s) = length (pending_slots s)"
    and wrap: "writer s < reader s"
  shows "reader (snd (getRaw MAX_RECORDINGS s)) = reader s \<and>
         fst (fst (getRaw MAX_RECORDINGS s)) = unat (reader s) \<and>
         take (length (unwound s)) (exposed (getRaw MAX_RECORDINGS s)) = unwound s"
proof -
  let ?n = "length (data_run s)"
  let ?pt = "msgbuf s ! unat (reader s)"
  from wrap have ne: "reader s \<noteq> writer s" by auto
  from wrap have "unat (writer s) < unat (reader s)" by (simp add: word_less_nat_alt)
  then have test: "unat (reader s) + (?n + 1) \<noteq> unat (writer s)" by simp
  note r = getRaw_with_extra [OF ne big short test]
  have n: "?n + 1 < 65536" using run_bound [of s] by simp
  have un: "unat (of_nat (?n + 1) :: uint) = ?n + 1" using n by (rule uint_of_nat_unat)
  have lu: "length (unwound s) = ?n" using all by (simp add: length_unwound)
  have mb: "msgbuf (s\<lparr>msgbuf := filled (reader s) ?pt (msgbuf s) (Suc ?n)\<rparr>) =
            filled (reader s) ?pt (msgbuf s) (Suc ?n)" by simp
  define X where "X = drop (unat (reader s)) (filled (reader s) ?pt (msgbuf s) (Suc ?n))"
  have "exposed (getRaw MAX_RECORDINGS s) = take (unat (of_nat (?n + 1) :: uint)) X"
    unfolding r exposed_def X_def by (simp only: prod.case mb)
  then have ex: "exposed (getRaw MAX_RECORDINGS s) = take (?n + 1) X" by (simp only: un)
  have "take ?n (exposed (getRaw MAX_RECORDINGS s)) = take ?n X"
    unfolding ex by (simp add: min_def)
  also have "\<dots> = take ?n (drop (unat (reader s)) (filled (reader s) ?pt (msgbuf s) (Suc ?n)))"
    by (simp only: X_def)
  also have "\<dots> = map (\<lambda>p. ?pt * msgbuf s ! unat p) (take ?n (pending_slots s))"
    using short all len by (intro exposed_filled_prefix) simp_all
  finally have e: "take ?n (exposed (getRaw MAX_RECORDINGS s)) = unwound s"
    using all by (simp add: unwound_def)
  from e lu show ?thesis unfolding r by simp
qed

text \<open>
  C8, as amended. Let \<open>msgbuf\<close> have \<open>MAX_RECORDINGS\<close> slots, at least 256. For every such
  state \<open>getRaw\<close> leaves \<open>reader\<close> as it is; it returns the count 0 whenever nothing is
  pending (\<open>reader = writer\<close>) or the data run is at least as long as the flat space
  \<open>MAX_RECORDINGS - reader\<close>; and whenever the count is not 0 the returned pointer is
  \<open>msgbuf + reader\<close> and the returned entries begin with the unwound message: the header
  times each stored period count (a 16-bit product), the trailing sync included when
  present. Furthermore, in every state in which the data run is followed by a further
  pending slot or \<open>reader \<le> writer\<close> holds of the two indices, these are all the returned
  entries, and the count is 0 exactly when nothing is pending, or the data run is at least
  as long as the flat space, or the pending region holds the header alone. Nothing is
  said of the count and of the entries after the unwound message in the remaining
  states, where the data run ends at \<open>writer\<close> and \<open>writer < reader\<close>.
\<close>

theorem getRaw_unwinds:
  assumes big: "256 \<le> unat MAX_RECORDINGS"
    and len: "length (msgbuf s) = unat MAX_RECORDINGS"
  shows "reader (snd (getRaw MAX_RECORDINGS s)) = reader s \<and>
    (reader s = writer s \<or> unat MAX_RECORDINGS - unat (reader s) \<le> length (data_run s) \<longrightarrow>
       snd (fst (getRaw MAX_RECORDINGS s)) = 0) \<and>
    (snd (fst (getRaw MAX_RECORDINGS s)) \<noteq> 0 \<longrightarrow>
       fst (fst (getRaw MAX_RECORDINGS s)) = unat (reader s) \<and>
       take (length (unwound s)) (exposed (getRaw MAX_RECORDINGS s)) = unwound s) \<and>
    (length (data_run s) < length (pending_slots s) \<or> reader s \<le> writer s \<longrightarrow>
       (snd (fst (getRaw MAX_RECORDINGS s)) = 0 \<longleftrightarrow>
          reader s = writer s \<or>
          unat MAX_RECORDINGS - unat (reader s) \<le> length (data_run s) \<or>
          unwound s = []) \<and>
       (snd (fst (getRaw MAX_RECORDINGS s)) \<noteq> 0 \<longrightarrow>
          exposed (getRaw MAX_RECORDINGS s) = unwound s))"
proof (cases "reader s = writer s")
  case True
  then show ?thesis by (simp add: getRaw_empty)
next
  case ne: False
  show ?thesis
  proof (cases "unat MAX_RECORDINGS - unat (reader s) \<le> length (data_run s)")
    case True
    with getRaw_dropped [OF ne big True] show ?thesis by simp
  next
    case False
    then have short: "length (data_run s) < unat MAX_RECORDINGS - unat (reader s)" by simp
    show ?thesis
    proof (cases "length (data_run s) < length (pending_slots s)")
      case True
      from getRaw_unwinds_trailing [OF big len ne short True] ne False show ?thesis by simp
    next
      case nomore: False
      with length_run_le [of s] have all: "length (data_run s) = length (pending_slots s)"
        by simp
      show ?thesis
      proof (cases "reader s \<le> writer s")
        case True
        from getRaw_unwinds_bare [OF big len ne short all True] ne False show ?thesis by auto
      next
        case False
        then have wrap: "writer s < reader s" by simp
        from getRaw_unwinds_past_writer [OF big len short all wrap] ne nomore False \<open>\<not> unat MAX_RECORDINGS - unat (reader s) \<le> length (data_run s)\<close>
        show ?thesis by simp
      qed
    qed
  qed
qed


theorem getRaw_unwinds_witness:
  "256 \<le> unat (512 :: uint) \<and> length (msgbuf ring_state) = unat (512 :: uint) \<and>
   reader ring_state \<le> writer ring_state \<and>
   reader (snd (getRaw 512 ring_state)) = reader ring_state \<and>
   snd (fst (getRaw 512 ring_state)) = 16 \<and>
   unwound ring_state =
     [100, 100, 200, 100, 100, 200, 100, 100, 200, 100, 100, 200, 100, 100, 200, 3000]"
proof -
  have h1: "256 \<le> unat (512 :: uint)" by simp
  have h2: "length (msgbuf ring_state) = unat (512 :: uint)" by (simp add: ring_state_def)
  have h3: "reader ring_state \<le> writer ring_state" by (simp add: ring_state_def)
  have sz: "snd (fst (getRaw 512 ring_state)) = 16" by (simp add: ring_getRaw)
  have ex: "exposed (getRaw 512 ring_state) =
     [100, 100, 200, 100, 100, 200, 100, 100, 200, 100, 100, 200, 100, 100, 200, 3000]"
    unfolding ring_getRaw by (simp add: exposed_def ring_state_def)
  from getRaw_unwinds [OF h1 h2] sz ex h1 h2 h3 show ?thesis by simp
qed



lemma upt_1_6: "[Suc 0..<6] = [1, 2, 3, 4, 5 :: nat]"
  by code_simp

lemma byte_minus_250: "(- 250 :: byte) = 6"
  by simp

lemma wrapped_getRaw:
  "getRaw 512 wrapped_state =
     ((250, 6),
      wrapped_state\<lparr>msgbuf :=
        [7] @ replicate 249 0 @ [100, 200, 100, 200, 100, 700] @ replicate 256 0\<rparr>)"
  by (simp add: getRaw_def wrapped_state_def getRaw_loop.simps nth_append list_update_append)

lemma wrapped_exposed:
  "exposed (getRaw 512 wrapped_state) = [100, 200, 100, 200, 100, 700]"
  unfolding wrapped_getRaw by (simp add: exposed_def wrapped_state_def)

lemma wrapped_unwound: "unwound wrapped_state = [100, 200, 100, 200, 100]"
  by (simp add: unwound_def data_run_def pending_slots_def wrapped_state_def byte_minus_250
        upt_1_6 nth_append)

lemma wrapped_count: "snd (fst (getRaw 512 wrapped_state)) = 6"
  by (simp add: wrapped_getRaw)

lemma header_only_count:
  "snd (fst (getRaw 512 (ring_state\<lparr>reader := 16\<rparr>))) = 0 \<and>
   reader (ring_state\<lparr>reader := 16\<rparr>) \<noteq> writer (ring_state\<lparr>reader := 16\<rparr>) \<and>
   fits_flat 512 (ring_state\<lparr>reader := 16\<rparr>)"
  by (simp add: getRaw_def getRaw_loop.simps ring_state_def fits_flat_def unwound_def
        pending_slots_def)

text \<open>
  C8 as stated fails twice. With \<open>reader = 16\<close> and \<open>writer = 17\<close> one slot is pending, so
  \<open>reader\<close> differs from \<open>writer\<close>, its unwound message is empty and fits any space, and
  \<open>getRaw\<close> returns the count 0. In \<open>wrapped_state\<close> the pending region is the header at
  slot 250 and five data slots up to slot 255, \<open>writer\<close> is 0, and there is no trailing
  sync: the test of line 108 compares 256 with 0, and \<open>getRaw\<close> returns six entries, the
  last one the header times the slot at \<open>writer\<close>, which is not pending.
\<close>

theorem getRaw_count_counterexample:
  "(snd (fst (getRaw 512 (ring_state\<lparr>reader := 16\<rparr>))) = 0 \<and>
    reader (ring_state\<lparr>reader := 16\<rparr>) \<noteq> writer (ring_state\<lparr>reader := 16\<rparr>) \<and>
    fits_flat 512 (ring_state\<lparr>reader := 16\<rparr>)) \<and>
   snd (fst (getRaw 512 wrapped_state)) = 6 \<and>
   exposed (getRaw 512 wrapped_state) = [100, 200, 100, 200, 100, 700] \<and>
   unwound wrapped_state = [100, 200, 100, 200, 100]"
  by (intro conjI header_only_count wrapped_count wrapped_exposed wrapped_unwound)

section \<open>Eight populated classes\<close>

lemma eight_pass1:
  "csb_outer [1, 2, 4, 8, 16, 32, 64, 128] 0 init_buckets =
     (True, \<lparr>buckets = [1, 2, 4, 8, 16, 32, 64, 128],
             sums = [1, 2, 4, 8, 16, 32, 64, 128],
             counts = [1, 1, 1, 1, 1, 1, 1, 1]\<rparr>)"
  by (simp add: init_buckets_def csb_outer.simps csb_inner.simps)

lemma eight_average:
  "buckets (average_buckets \<lparr>buckets = [1, 2, 4, 8, 16, 32, 64, 128],
             sums = [1, 2, 4, 8, 16, 32, 64, 128],
             counts = [1, 1, 1, 1, 1, 1, 1, 1]\<rparr>) = [1, 2, 4, 8, 16, 32, 64, 128]"
  by (simp add: average_buckets_def average_step_def upt_0_8)

lemma eight_sort: "bubble_sort [1, 2, 4, 8, 16, 32, 64, 128] = [1, 2, 4, 8, 16, 32, 64, 128]"
proof -
  have "bubble_sort [1, 2, 4, 8, 16, 32, 64, 128] = (bubble ^^ 8) [1, 2, 4, 8, 16, 32, 64, 128]"
    by (simp add: bubble_sort_funpow bubble_pass_iter)
  also have "\<dots> = [1, 2, 4, 8, 16, 32, 64, 128]"
    by (simp add: funpow_8)
  finally show ?thesis .
qed

lemma eight_first: "find_first 0 [1, 2, 4, 8, 16, 32, 64, 128] = 0"
  by (simp add: find_first.simps)

lemma eight_compact:
  "compact_loop (8 - 0) 0 0 [1, 2, 4, 8, 16, 32, 64, 128] = [0, 0, 0, 0, 0, 0, 0, 0]"
  by (simp add: compact_loop.simps)

lemma eight_bands:
  "ref_Val_l [0, 0, 0, 0, 0, 0, 0, 0] = [0, 0, 0, 0, 0, 0, 0, 0]"
  "ref_Val_h [0, 0, 0, 0, 0, 0, 0, 0] = [0, 0, 0, 0, 0, 0, 0, 0]"
  by (simp_all add: ref_Val_l_def ref_Val_h_def)

lemma eight_relabel:
  "relabel_outer [0, 0, 0, 0, 0, 0, 0, 0] [0, 0, 0, 0, 0, 0, 0, 0]
     (length [1, 2, 4, 8, 16, 32, 64, 128 :: uint]) 0 [1, 2, 4, 8, 16, 32, 64, 128] =
     [1, 2, 4, 8, 16, 32, 64, 128]"
  by (simp add: relabel_outer.simps relabel_inner.simps)

lemma eight_means_sorted:
  "bubble_sort (buckets (average_buckets (snd (csb_outer [1, 2, 4, 8, 16, 32, 64, 128] 0
     init_buckets)))) = [1, 2, 4, 8, 16, 32, 64, 128]"
  unfolding eight_pass1 snd_conv by (simp only: eight_average eight_sort)

lemma eight_result:
  "compressTimingsAndSortBuckets [1, 2, 4, 8, 16, 32, 64, 128] =
     (True, [0, 0, 0, 0, 0, 0, 0, 0], [1, 2, 4, 8, 16, 32, 64, 128])"
  unfolding compressTimingsAndSortBuckets_def eight_pass1
  by (simp only: prod.case bool.case Let_def eight_average eight_sort eight_first
        eight_compact eight_bands eight_relabel)

text \<open>
  C9. The claim: when \<open>compressTimingsAndSortBuckets\<close> returns true, the populated
  entries of the bucket table stand at the front of the array in non-decreasing order,
  the unused entries after them. With the durations 1, 2, 4, 8, 16, 32, 64, 128 every
  class has one member and the eight means, sorted, are these eight values. The first
  sorted bucket is not zero, so \<open>first\<close> is 0 and the loop of lines 314-318 copies every
  bucket onto itself and then clears it: the function returns true with a table of
  eight zeros, none of the eight populated entries in it, and no duration relabelled.
\<close>

theorem eight_classes_erased:
  "bubble_sort (buckets (average_buckets (snd (csb_outer [1, 2, 4, 8, 16, 32, 64, 128] 0
     init_buckets)))) = [1, 2, 4, 8, 16, 32, 64, 128] \<and>
   compressTimingsAndSortBuckets [1, 2, 4, 8, 16, 32, 64, 128] =
     (True, [0, 0, 0, 0, 0, 0, 0, 0], [1, 2, 4, 8, 16, 32, 64, 128])"
  by (intro conjI eight_means_sorted eight_result)

end
